theory Spec2Isabelle
  imports Main "HOL-Library.AList"
begin

section \<open>Errors and results\<close>

text \<open>
  The exceptions that \<^verbatim>\<open>zeep/xsd/types.py\<close> raises or lets through, as values.
  \<open>DanglingReference\<close> is not a Python exception: the type graph below is a list of
  objects addressed by index, and an address outside the list has no object.
\<close>

datatype error =
    NotImplementedError
  | AttributeError
  | TypeError string
  | KeyError string
  | LookupError string
  | DanglingReference

fun mapM :: "('a \<Rightarrow> 'e + 'b) \<Rightarrow> 'a list \<Rightarrow> 'e + 'b list" where
  "mapM f [] = Inr []"
| "mapM f (x # xs) =
     (case f x of
        Inl e \<Rightarrow> Inl e
      | Inr y \<Rightarrow> (case mapM f xs of Inl e \<Rightarrow> Inl e | Inr ys \<Rightarrow> Inr (y # ys)))"

text \<open>\<^verbatim>\<open>sep.join(parts)\<close> on strings.\<close>

fun join :: "string \<Rightarrow> string list \<Rightarrow> string" where
  "join sep [] = []"
| "join sep [x] = x"
| "join sep (x # y # ys) = x @ sep @ join sep (y # ys)"

text \<open>\<^verbatim>\<open>'%d' % n\<close> for a count.\<close>

definition digit :: "nat \<Rightarrow> char" where
  "digit d = ''0123456789'' ! d"

function show_nat :: "nat \<Rightarrow> string" where
  "show_nat n = (if n < 10 then [digit n] else show_nat (n div 10) @ [digit (n mod 10)])"
  by pat_completeness auto
termination
  by (relation "measure id") auto

declare show_nat.simps [simp del]

section \<open>Classes and abstract operations\<close>

text \<open>
  The classes of the module and the methods a caller may invoke on them. \<open>class_body c\<close>
  lists what the body of class \<open>c\<close> itself defines: a stub, whose body is
  \<^verbatim>\<open>raise NotImplementedError\<close>, or an implementation. \<open>bases\<close> is the class header:
  every class derives from \<^verbatim>\<open>Type\<close> except \<^verbatim>\<open>Type\<close> itself and
  \<^verbatim>\<open>UnionType\<close>, which are declared on \<^verbatim>\<open>object\<close>.
\<close>

datatype cls =
    TypeC | UnresolvedTypeC | UnresolvedCustomTypeC | SimpleTypeC | ComplexTypeC
  | ListTypeC | UnionTypeC

datatype operation =
    M_accept | M_parse_xmlelement | M_parsexml | M_render | M_resolve
  | M_attributes | M_signature | M_serialize | M_xmlvalue | M_pythonvalue
  | M_call | M_elements | M_elements_nested

datatype body = Stub | Impl

fun class_body :: "cls \<Rightarrow> (operation \<times> body) list" where
  "class_body TypeC =
     [(M_accept, Stub), (M_parse_xmlelement, Stub), (M_parsexml, Stub), (M_render, Stub),
      (M_resolve, Stub), (M_attributes, Impl), (M_signature, Impl)]"
| "class_body UnresolvedTypeC = [(M_resolve, Impl)]"
| "class_body UnresolvedCustomTypeC = [(M_resolve, Impl)]"
| "class_body SimpleTypeC =
     [(M_call, Impl), (M_parse_xmlelement, Impl), (M_pythonvalue, Stub), (M_render, Impl),
      (M_resolve, Impl), (M_serialize, Impl), (M_signature, Impl), (M_xmlvalue, Stub)]"
| "class_body ComplexTypeC =
     [(M_call, Impl), (M_attributes, Impl), (M_elements, Impl), (M_elements_nested, Impl),
      (M_parse_xmlelement, Impl), (M_render, Impl), (M_resolve, Impl), (M_serialize, Impl),
      (M_signature, Impl)]"
| "class_body ListTypeC = [(M_render, Impl), (M_resolve, Impl), (M_xmlvalue, Impl)]"
| "class_body UnionTypeC = [(M_resolve, Impl), (M_signature, Impl)]"

definition own :: "cls \<Rightarrow> operation \<Rightarrow> body option" where
  "own c m = map_of (class_body c) m"

fun bases :: "cls \<Rightarrow> cls option" where
  "bases TypeC = None"
| "bases UnionTypeC = None"
| "bases _ = Some TypeC"

text \<open>
  Attribute lookup along the method resolution order (the class, then its base), and what
  invoking the method found there does before any of its own work: a missing attribute is
  an \<^verbatim>\<open>AttributeError\<close>, a stub raises \<^verbatim>\<open>NotImplementedError\<close>, an
  implementation runs (\<open>Inr\<close> of the class whose body runs).
\<close>

definition lookup_method :: "cls \<Rightarrow> operation \<Rightarrow> (cls \<times> body) option" where
  "lookup_method c m =
     (case own c m of
        Some b \<Rightarrow> Some (c, b)
      | None \<Rightarrow>
          (case bases c of
             None \<Rightarrow> None
           | Some p \<Rightarrow> (case own p m of Some b \<Rightarrow> Some (p, b) | None \<Rightarrow> None)))"

definition invoke :: "cls \<Rightarrow> operation \<Rightarrow> error + cls" where
  "invoke c m =
     (case lookup_method c m of
        None \<Rightarrow> Inl AttributeError
      | Some (_, Stub) \<Rightarrow> Inl NotImplementedError
      | Some (d, Impl) \<Rightarrow> Inr d)"

text \<open>The five operations that \<^verbatim>\<open>Type\<close> declares as stubs.\<close>

definition type_stubs :: "operation list" where
  "type_stubs = [M_accept, M_parse_xmlelement, M_parsexml, M_render, M_resolve]"

section \<open>SimpleType construction\<close>

text \<open>
  \<^verbatim>\<open>SimpleType.__call__(self, *args, **kwargs)\<close>. \<open>cname\<close> is
  \<^verbatim>\<open>self.__class__.__name__\<close>, \<open>xmlvalue\<close> the scalar encoder of the concrete class
  (a stub in \<^verbatim>\<open>SimpleType\<close> itself), \<open>repr\<close> Python's \<^verbatim>\<open>%r\<close>. The keyword
  arguments are the dictionary's items in iteration order.
\<close>

definition arity_message :: "string \<Rightarrow> nat \<Rightarrow> string" where
  "arity_message cname num_args =
     cname @ ''() takes exactly 1 argument ('' @ show_nat num_args @ '' given). '' @
     ''Simple types expect only a single value argument''"

definition keyword_message :: "(string \<Rightarrow> string) \<Rightarrow> string \<Rightarrow> string \<Rightarrow> string" where
  "keyword_message repr cname key =
     cname @ ''() got an unexpected keyword argument '' @ repr key @ ''. '' @
     ''Simple types expect only a single value argument''"

definition simple_call ::
  "(string \<Rightarrow> string) \<Rightarrow> string \<Rightarrow> ('v \<Rightarrow> error + string) \<Rightarrow>
   'v list \<Rightarrow> (string \<times> 'v) list \<Rightarrow> error + string" where
  "simple_call repr cname xmlvalue args kwargs =
     (let num_args = length args + length kwargs in
      if num_args \<noteq> 1 then Inl (TypeError (arity_message cname num_args))
      else if kwargs \<noteq> [] \<and> ''value'' \<notin> fst ` set kwargs
        then Inl (TypeError (keyword_message repr cname (fst (hd kwargs))))
      else
        (case args of
           v # _ \<Rightarrow> xmlvalue v
         | [] \<Rightarrow>
             (case map_of kwargs ''value'' of
                Some v \<Rightarrow> xmlvalue v
              | None \<Rightarrow> Inl (KeyError ''value''))))"

section \<open>XML nodes and ListType\<close>

text \<open>
  The XML node contract the module consumes: the tag, the attribute mapping in iteration
  order, the ordered children and the optional text.
\<close>

datatype xml =
  XML (tag: string) (attrib: "(string \<times> string) list") (getchildren: "xml list")
    (xml_text: "string option")

definition set_text :: "xml \<Rightarrow> string \<Rightarrow> xml" where
  "set_text parent s = XML (tag parent) (attrib parent) (getchildren parent) (Some s)"

text \<open>
  \<^verbatim>\<open>ListType.xmlvalue\<close> and \<^verbatim>\<open>ListType.render\<close>; \<open>item_xmlvalue\<close> is
  \<^verbatim>\<open>self.item_type.xmlvalue\<close>.
\<close>

definition list_xmlvalue :: "('v \<Rightarrow> error + string) \<Rightarrow> 'v list \<Rightarrow> error + string" where
  "list_xmlvalue item_xmlvalue value =
     (case mapM item_xmlvalue value of Inl e \<Rightarrow> Inl e | Inr parts \<Rightarrow> Inr (join '' '' parts))"

definition list_render :: "('v \<Rightarrow> error + string) \<Rightarrow> xml \<Rightarrow> 'v list \<Rightarrow> error + xml" where
  "list_render item_xmlvalue parent value =
     (case list_xmlvalue item_xmlvalue value of
        Inl e \<Rightarrow> Inl e
      | Inr s \<Rightarrow> Inr (set_text parent s))"

text \<open>
  Modelled from the spec: an item type encoding integers as decimal text (the built-in
  integer type is in \<^verbatim>\<open>zeep.xsd.builtins\<close>, which is not among the sources).
\<close>

definition integer_xmlvalue :: "int \<Rightarrow> error + string" where
  "integer_xmlvalue i =
     Inr (if i < 0 then CHR ''-'' # show_nat (nat (- i)) else show_nat (nat i))"

section \<open>The type graph\<close>

text \<open>
  Type objects refer to each other, a type may reach itself through its extension or
  through the type of one of its elements, and \<^verbatim>\<open>resolve\<close> rewrites the
  references in place. The graph is therefore a store: a list of objects, an object's
  identity being its index. A new object is appended.
\<close>

type_synonym addr = nat

text \<open>
  A \<^verbatim>\<open>SimpleType\<close> instance has no state of its own: what it does is fixed by its
  class, here the class name and the class attribute \<^verbatim>\<open>name\<close>.
\<close>

record simple =
  s_class :: string
  s_name :: "string option"

text \<open>
  Modelled from the spec: attribute definitions and content-model nodes, whose classes are
  in \<^verbatim>\<open>zeep.xsd.elements\<close>, not among the sources. An attribute and a single
  element have a name and a type reference; a content-model node is a single element or a
  list-like group (sequence, choice, all) of content-model nodes, so groups nest.
\<close>

record attribute =
  attr_name :: string
  attr_type :: addr

record element =
  elem_name :: string
  elem_type :: addr

datatype node = Element element | Group "node list"

record complex =
  c_class :: string
  c_element :: "node option"
  c_attributes :: "attribute list"
  c_restriction :: "addr option"
  c_extension :: "addr option"
  c_resolved :: bool

datatype xsd_type =
    Type
  | UnresolvedType string
  | UnresolvedCustomType string addr
  | SimpleType simple
  | ComplexType complex
  | ListType addr
  | UnionType "addr list"

type_synonym heap = "xsd_type list"

text \<open>
  \<^verbatim>\<open>ComplexType.__init__\<close>: a plain list of elements is wrapped into a sequence
  (both are \<open>Group\<close> here), missing attributes become the empty list, and
  \<^verbatim>\<open>Type.__init__\<close> clears the flag. \<open>cname\<close> is the name of the instance's class.
\<close>

definition complex_init ::
  "string \<Rightarrow> node option \<Rightarrow> attribute list option \<Rightarrow> addr option \<Rightarrow> addr option \<Rightarrow> complex" where
  "complex_init cname element attributes restriction extension =
     \<lparr>c_class = cname, c_element = element,
      c_attributes = (case attributes of None \<Rightarrow> [] | Some ats \<Rightarrow> ats),
      c_restriction = restriction, c_extension = extension, c_resolved = False\<rparr>"

text \<open>Truth value of \<^verbatim>\<open>self._element\<close>: a list-like node is false when empty.\<close>

fun truthy :: "node \<Rightarrow> bool" where
  "truthy (Element e) = True"
| "truthy (Group ms) = (ms \<noteq> [])"

subsection \<open>Results of operations that walk the graph\<close>

text \<open>
  A walk through a cyclic graph need not return. The walking functions take a bound on the
  depth of nested calls and return \<open>None\<close> when the bound is reached; otherwise
  \<open>Some (Inl e)\<close> for an exception and \<open>Some (Inr x)\<close> for a result.
\<close>

type_synonym 'a res = "(error + 'a) option"

definition ok :: "'a \<Rightarrow> 'a res" where
  "ok x = Some (Inr x)"

definition raise :: "error \<Rightarrow> 'a res" where
  "raise e = Some (Inl e)"

definition bindR :: "'a res \<Rightarrow> ('a \<Rightarrow> 'b res) \<Rightarrow> 'b res" where
  "bindR m k = (case m of None \<Rightarrow> None | Some (Inl e) \<Rightarrow> Some (Inl e) | Some (Inr x) \<Rightarrow> k x)"

text \<open>Reading a field of \<^verbatim>\<open>self\<close>, a ComplexType at address \<open>a\<close>.\<close>

definition with_complex :: "heap \<Rightarrow> addr \<Rightarrow> (complex \<Rightarrow> 'a res) \<Rightarrow> 'a res" where
  "with_complex h a k =
     (if length h \<le> a then raise DanglingReference
      else (case h ! a of ComplexType c \<Rightarrow> k c | _ \<Rightarrow> raise AttributeError))"

text \<open>Assigning to a field of \<^verbatim>\<open>self\<close>.\<close>

definition set_complex :: "heap \<Rightarrow> addr \<Rightarrow> (complex \<Rightarrow> complex) \<Rightarrow> heap" where
  "set_complex h a f = (case h ! a of ComplexType c \<Rightarrow> h[a := ComplexType (f c)] | _ \<Rightarrow> h)"

section \<open>Resolution\<close>

text \<open>
  The functions of this section take the resolver \<open>r\<close> for the nested
  \<^verbatim>\<open>.resolve()\<close> calls on type objects; \<open>resolve\<close> below ties the knot.

  Modelled from the spec: \<^verbatim>\<open>resolve\<close> of an attribute and of a content-model node
  (in \<^verbatim>\<open>zeep.xsd.elements\<close>): the type reference is resolved in place and the
  attribute or node itself is returned, a group resolving its members in order.
\<close>

type_synonym resolver = "heap \<Rightarrow> addr \<Rightarrow> (heap \<times> addr) res"

definition resolve_attribute :: "resolver \<Rightarrow> heap \<Rightarrow> attribute \<Rightarrow> (heap \<times> attribute) res" where
  "resolve_attribute r h at =
     bindR (r h (attr_type at)) (\<lambda>(h', t). ok (h', at\<lparr>attr_type := t\<rparr>))"

definition resolve_element :: "resolver \<Rightarrow> heap \<Rightarrow> element \<Rightarrow> (heap \<times> element) res" where
  "resolve_element r h e =
     bindR (r h (elem_type e)) (\<lambda>(h', t). ok (h', e\<lparr>elem_type := t\<rparr>))"

text \<open>One call after the other, each on the store the previous one left.\<close>

fun thread :: "(heap \<Rightarrow> 'x \<Rightarrow> (heap \<times> 'x) res) \<Rightarrow> heap \<Rightarrow> 'x list \<Rightarrow> (heap \<times> 'x list) res" where
  "thread f h [] = ok (h, [])"
| "thread f h (x # xs) =
     bindR (f h x) (\<lambda>(h1, y). bindR (thread f h1 xs) (\<lambda>(h2, ys). ok (h2, y # ys)))"

fun resolve_node :: "resolver \<Rightarrow> heap \<Rightarrow> node \<Rightarrow> (heap \<times> node) res"
  and resolve_nodes :: "resolver \<Rightarrow> heap \<Rightarrow> node list \<Rightarrow> (heap \<times> node list) res" where
  "resolve_node r h (Element e) = bindR (resolve_element r h e) (\<lambda>(h', e'). ok (h', Element e'))"
| "resolve_node r h (Group ms) = bindR (resolve_nodes r h ms) (\<lambda>(h', ms'). ok (h', Group ms'))"
| "resolve_nodes r h [] = ok (h, [])"
| "resolve_nodes r h (m # ms) =
     bindR (resolve_node r h m)
       (\<lambda>(h1, m'). bindR (resolve_nodes r h1 ms) (\<lambda>(h2, ms'). ok (h2, m' # ms')))"

text \<open>
  \<^verbatim>\<open>ComplexType.resolve\<close>, statement by statement. Each step reads the field of
  \<^verbatim>\<open>self\<close> from the store as it is at that moment and assigns the result back.
  The attribute loop replaces entry \<open>i\<close> by the resolved attribute; the assertion that the
  entry is not \<^verbatim>\<open>None\<close> holds for every attribute of this model.
\<close>

definition resolve_extension :: "resolver \<Rightarrow> heap \<Rightarrow> addr \<Rightarrow> heap res" where
  "resolve_extension r h a =
     with_complex h a (\<lambda>c.
       case c_extension c of
         None \<Rightarrow> ok h
       | Some e \<Rightarrow>
           bindR (r h e) (\<lambda>(h', e'). ok (set_complex h' a (\<lambda>c. c\<lparr>c_extension := Some e'\<rparr>))))"

definition resolve_restriction :: "resolver \<Rightarrow> heap \<Rightarrow> addr \<Rightarrow> heap res" where
  "resolve_restriction r h a =
     with_complex h a (\<lambda>c.
       case c_restriction c of
         None \<Rightarrow> ok h
       | Some e \<Rightarrow>
           bindR (r h e) (\<lambda>(h', e'). ok (set_complex h' a (\<lambda>c. c\<lparr>c_restriction := Some e'\<rparr>))))"

definition resolve_content :: "resolver \<Rightarrow> heap \<Rightarrow> addr \<Rightarrow> heap res" where
  "resolve_content r h a =
     with_complex h a (\<lambda>c.
       case c_element c of
         None \<Rightarrow> ok h
       | Some nd \<Rightarrow>
           if truthy nd
           then bindR (resolve_node r h nd)
                  (\<lambda>(h', nd'). ok (set_complex h' a (\<lambda>c. c\<lparr>c_element := Some nd'\<rparr>)))
           else ok h)"

definition resolve_attributes :: "resolver \<Rightarrow> heap \<Rightarrow> addr \<Rightarrow> heap res" where
  "resolve_attributes r h a =
     with_complex h a (\<lambda>c.
       bindR (thread (resolve_attribute r) h (c_attributes c))
         (\<lambda>(h', ats). ok (set_complex h' a (\<lambda>c. c\<lparr>c_attributes := ats\<rparr>))))"

definition resolve_complex :: "resolver \<Rightarrow> heap \<Rightarrow> addr \<Rightarrow> (heap \<times> addr) res" where
  "resolve_complex r h a =
     with_complex h a (\<lambda>c.
       if c_resolved c then ok (h, a)
       else
         bindR (resolve_extension r (set_complex h a (\<lambda>c. c\<lparr>c_resolved := True\<rparr>)) a) (\<lambda>h1.
         bindR (resolve_restriction r h1 a) (\<lambda>h2.
         bindR (resolve_content r h2 a) (\<lambda>h3.
         bindR (resolve_attributes r h3 a) (\<lambda>h4.
         ok (h4, a))))))"

text \<open>
  \<^verbatim>\<open>type(self.name, (base.__class__,), cls_attributes)()\<close>: an instance of a new
  class that is named \<open>name\<close> and derives from the class of \<open>base\<close>, constructed without
  arguments. The constructors of the list, union and unresolved classes require arguments,
  so Python raises a \<^verbatim>\<open>TypeError\<close> there (its message depends on the Python
  version).
\<close>

definition missing_arguments :: error where
  "missing_arguments = TypeError ''__init__() missing required arguments''"

fun subclass_instance :: "string \<Rightarrow> xsd_type \<Rightarrow> error + xsd_type" where
  "subclass_instance name Type = Inr Type"
| "subclass_instance name (SimpleType s) = Inr (SimpleType (s\<lparr>s_class := name\<rparr>))"
| "subclass_instance name (ComplexType c) =
     Inr (ComplexType (complex_init name None None None None))"
| "subclass_instance name (UnresolvedType q) = Inl missing_arguments"
| "subclass_instance name (UnresolvedCustomType n b) = Inl missing_arguments"
| "subclass_instance name (ListType i) = Inl missing_arguments"
| "subclass_instance name (UnionType items) = Inl missing_arguments"

text \<open>\<^verbatim>\<open>UnresolvedCustomType.resolve\<close>; \<open>b\<close> is \<^verbatim>\<open>self.base_qname\<close>.\<close>

definition resolve_custom :: "resolver \<Rightarrow> heap \<Rightarrow> string \<Rightarrow> addr \<Rightarrow> (heap \<times> addr) res" where
  "resolve_custom r h name b =
     (if length h \<le> b then raise DanglingReference
      else
        bindR (case h ! b of UnresolvedType q \<Rightarrow> r h b | _ \<Rightarrow> ok (h, b)) (\<lambda>(h1, base).
          if length h1 \<le> base then raise DanglingReference
          else
            (case subclass_instance name (h1 ! base) of
               Inl e \<Rightarrow> raise e
             | Inr obj \<Rightarrow> ok (h1 @ [obj], length h1))))"

text \<open>
  \<^verbatim>\<open>resolve\<close> on the object at address \<open>a\<close>, by the class of the object.
  \<open>get_type\<close> is the schema registry; a name it does not know is an error of the
  registry. The first argument bounds the depth of nested \<^verbatim>\<open>resolve\<close> calls.
\<close>

primrec resolve :: "nat \<Rightarrow> (string \<Rightarrow> addr option) \<Rightarrow> heap \<Rightarrow> addr \<Rightarrow> (heap \<times> addr) res" where
  "resolve 0 get_type h a = None"
| "resolve (Suc n) get_type h a =
     (if length h \<le> a then raise DanglingReference
      else
        (case h ! a of
           Type \<Rightarrow> raise NotImplementedError
         | UnresolvedType q \<Rightarrow>
             (case get_type q of
                None \<Rightarrow> raise (LookupError q)
              | Some t \<Rightarrow> resolve n get_type h t)
         | UnresolvedCustomType name b \<Rightarrow> resolve_custom (resolve n get_type) h name b
         | SimpleType s \<Rightarrow> ok (h, a)
         | ComplexType c \<Rightarrow> resolve_complex (resolve n get_type) h a
         | ListType i \<Rightarrow>
             bindR (resolve n get_type h i) (\<lambda>(h', i'). ok (h'[a := ListType i'], a))
         | UnionType items \<Rightarrow>
             bindR (thread (resolve n get_type) h items)
               (\<lambda>(h', items'). ok (h'[a := UnionType items'], a))))"

section \<open>Effective attributes and content nodes\<close>

text \<open>
  The properties \<^verbatim>\<open>attributes\<close>, \<^verbatim>\<open>elements_nested\<close> and
  \<^verbatim>\<open>elements\<close> are computed at the first access and cached; the functions below are
  that computation. They follow the extension reference, so the first argument bounds
  the depth of nested property reads. \<^verbatim>\<open>Type.attributes\<close> is the empty list; no
  class but \<^verbatim>\<open>ComplexType\<close> has \<^verbatim>\<open>elements_nested\<close>.
\<close>

primrec attributes :: "nat \<Rightarrow> heap \<Rightarrow> addr \<Rightarrow> attribute list res" where
  "attributes 0 h a = None"
| "attributes (Suc n) h a =
     (if length h \<le> a then raise DanglingReference
      else
        (case h ! a of
           ComplexType c \<Rightarrow>
             bindR (case c_extension c of None \<Rightarrow> ok [] | Some e \<Rightarrow> attributes n h e)
               (\<lambda>result. ok (result @ c_attributes c))
         | UnionType items \<Rightarrow> raise AttributeError
         | _ \<Rightarrow> ok []))"

text \<open>
  \<open>get_name k\<close> is the \<open>k\<close>-th name that a fresh \<^verbatim>\<open>UniqueAttributeName\<close> generator
  hands out (\<^verbatim>\<open>zeep.xsd.utils\<close> is not among the sources). A name is taken for the
  extension whenever there is one, so the node of the type itself gets the second name
  then and the first one otherwise.
\<close>

definition own_content :: "(nat \<Rightarrow> string) \<Rightarrow> complex \<Rightarrow> (string \<times> node) list" where
  "own_content get_name c =
     (case c_element c of
        None \<Rightarrow> []
      | Some nd \<Rightarrow>
          if truthy nd
          then [(get_name (case c_extension c of None \<Rightarrow> 1 | Some e \<Rightarrow> 2), nd)]
          else [])"

primrec elements_nested ::
  "nat \<Rightarrow> (nat \<Rightarrow> string) \<Rightarrow> heap \<Rightarrow> addr \<Rightarrow> (string \<times> node) list res" where
  "elements_nested 0 get_name h a = None"
| "elements_nested (Suc n) get_name h a =
     (if length h \<le> a then raise DanglingReference
      else
        (case h ! a of
           ComplexType c \<Rightarrow>
             bindR
               (case c_extension c of
                  None \<Rightarrow> ok []
                | Some e \<Rightarrow>
                    if length h \<le> e then raise DanglingReference
                    else
                      (case h ! e of
                         SimpleType s \<Rightarrow>
                           ok [(get_name 1,
                                Element \<lparr>elem_name = get_name 1, elem_type = e\<rparr>)]
                       | _ \<Rightarrow> elements_nested n get_name h e))
               (\<lambda>result. ok (result @ own_content get_name c))
         | _ \<Rightarrow> raise AttributeError))"

text \<open>
  Modelled from the spec: the \<^verbatim>\<open>elements\<close> of a group, the depth-first
  flattening of its members, in order, into pairs of name and element.
\<close>

fun node_elements :: "node \<Rightarrow> (string \<times> element) list" where
  "node_elements (Element e) = [(elem_name e, e)]"
| "node_elements (Group ms) = concat (map node_elements ms)"




section \<open>Parsing an XML element\<close>

text \<open>
  \<^verbatim>\<open>ComplexType.parse_xmlelement\<close>. The collaborators are parameters:
  \<open>attr_parse\<close> is \<^verbatim>\<open>attr.parse(value, schema)\<close>, \<open>parse_xmlelements\<close> is
  \<^verbatim>\<open>element.parse_xmlelements(children, schema, name)\<close> with the items of the
  mapping it returns, and \<open>compound_value\<close> is \<^verbatim>\<open>self(**init_kwargs)\<close>, the
  construction of the value object bound to the type at \<open>a\<close>. \<^verbatim>\<open>init_kwargs\<close> is a
  dictionary: its items in insertion order, an assignment to a present key keeping the
  key's place.
\<close>

definition attr_map_of :: "attribute list \<Rightarrow> (string \<rightharpoonup> attribute)" where
  "attr_map_of attrs = fold (\<lambda>attr m. m(attr_name attr \<mapsto> attr)) attrs Map.empty"

fun parse_attributes ::
  "(attribute \<Rightarrow> string \<Rightarrow> error + 'v) \<Rightarrow> (string \<rightharpoonup> attribute) \<Rightarrow>
   (string \<times> string) list \<Rightarrow> (string \<times> 'v) list \<Rightarrow> error + (string \<times> 'v) list" where
  "parse_attributes attr_parse attr_map [] init_kwargs = Inr init_kwargs"
| "parse_attributes attr_parse attr_map ((key, value) # rest) init_kwargs =
     (case attr_map key of
        None \<Rightarrow> parse_attributes attr_parse attr_map rest init_kwargs
      | Some attr \<Rightarrow>
          (case attr_parse attr value of
             Inl e \<Rightarrow> Inl e
           | Inr v \<Rightarrow>
               parse_attributes attr_parse attr_map rest (AList.update key v init_kwargs)))"

definition dict_update :: "(string \<times> 'v) list \<Rightarrow> (string \<times> 'v) list \<Rightarrow> (string \<times> 'v) list" where
  "dict_update d items = fold (\<lambda>(k, v) d. AList.update k v d) items d"

fun parse_elements ::
  "(node \<Rightarrow> xml list \<Rightarrow> string \<Rightarrow> error + (string \<times> 'v) list) \<Rightarrow> xml list \<Rightarrow>
   (string \<times> node) list \<Rightarrow> (string \<times> 'v) list \<Rightarrow> error + (string \<times> 'v) list" where
  "parse_elements parse_xmlelements children [] init_kwargs = Inr init_kwargs"
| "parse_elements parse_xmlelements children ((name, element) # rest) init_kwargs =
     (case parse_xmlelements element children name of
        Inl e \<Rightarrow> Inl e
      | Inr result \<Rightarrow>
          parse_elements parse_xmlelements children rest (dict_update init_kwargs result))"

definition parse_xmlelement ::
  "nat \<Rightarrow> (nat \<Rightarrow> string) \<Rightarrow> (attribute \<Rightarrow> string \<Rightarrow> error + 'v) \<Rightarrow>
   (node \<Rightarrow> xml list \<Rightarrow> string \<Rightarrow> error + (string \<times> 'v) list) \<Rightarrow>
   (addr \<Rightarrow> (string \<times> 'v) list \<Rightarrow> error + 'c) \<Rightarrow> heap \<Rightarrow> addr \<Rightarrow> xml \<Rightarrow> 'c option res" where
  "parse_xmlelement n get_name attr_parse parse_xmlelements compound_value h a xmlelement =
     (if getchildren xmlelement = [] \<and> attrib xmlelement = [] then ok None
      else
        bindR (attributes n h a) (\<lambda>attrs.
        bindR (Some (parse_attributes attr_parse (attr_map_of attrs) (attrib xmlelement) []))
          (\<lambda>kwargs1.
        bindR (elements_nested n get_name h a) (\<lambda>nested.
        bindR (Some (parse_elements parse_xmlelements (getchildren xmlelement) nested kwargs1))
          (\<lambda>kwargs2.
        bindR (Some (compound_value a kwargs2)) (\<lambda>v. ok (Some v)))))))"

section \<open>Serialization\<close>









section \<open>Signature\<close>

text \<open>
  \<^verbatim>\<open>ComplexType.signature\<close>. \<open>node_signature\<close> and \<open>attribute_signature\<close> are the
  \<^verbatim>\<open>signature()\<close> of a content-model node and of an attribute. An entry is passed
  over when it is a single element whose type is the very object being signed
  (\<^verbatim>\<open>==\<close> between type objects of different classes, or between ComplexTypes, is
  identity).
\<close>

definition self_reference :: "addr \<Rightarrow> node \<Rightarrow> bool" where
  "self_reference a nd = (case nd of Element e \<Rightarrow> elem_type e = a | Group ms \<Rightarrow> False)"

definition signature ::
  "nat \<Rightarrow> (nat \<Rightarrow> string) \<Rightarrow> (node \<Rightarrow> error + string) \<Rightarrow> (attribute \<Rightarrow> error + string) \<Rightarrow>
   heap \<Rightarrow> addr \<Rightarrow> string res" where
  "signature n get_name node_signature attribute_signature h a =
     bindR (elements_nested n get_name h a) (\<lambda>nested.
     bindR (Some (mapM node_signature
                    (filter (\<lambda>nd. \<not> self_reference a nd) (map snd nested)))) (\<lambda>parts.
     bindR (attributes n h a) (\<lambda>attrs.
     bindR (Some (mapM attribute_signature attrs)) (\<lambda>attr_parts.
     ok (join '', '' (parts @ attr_parts))))))"

section \<open>Extension chains\<close>

text \<open>
  A finite extension chain: ComplexTypes, each the extension of the one before, the last
  one extending nothing or a SimpleType. \<open>own_attributes\<close> and \<open>contributed_content\<close>
  are what one type of the chain adds to the effective views.
\<close>

fun ext_chain :: "heap \<Rightarrow> addr list \<Rightarrow> bool" where
  "ext_chain h [] = False"
| "ext_chain h [a] =
     (a < length h \<and>
      (case h ! a of
         ComplexType c \<Rightarrow>
           (case c_extension c of
              None \<Rightarrow> True
            | Some e \<Rightarrow> e < length h \<and> (case h ! e of SimpleType s \<Rightarrow> True | _ \<Rightarrow> False))
       | _ \<Rightarrow> False))"
| "ext_chain h (a # b # bs) =
     (a < length h \<and>
      (case h ! a of ComplexType c \<Rightarrow> c_extension c = Some b | _ \<Rightarrow> False) \<and>
      ext_chain h (b # bs))"

definition own_attributes :: "heap \<Rightarrow> addr \<Rightarrow> attribute list" where
  "own_attributes h a = (case h ! a of ComplexType c \<Rightarrow> c_attributes c | _ \<Rightarrow> [])"

definition contributed_content :: "(nat \<Rightarrow> string) \<Rightarrow> heap \<Rightarrow> addr \<Rightarrow> (string \<times> node) list" where
  "contributed_content get_name h a =
     (case h ! a of
        ComplexType c \<Rightarrow>
          (case c_extension c of
             None \<Rightarrow> []
           | Some e \<Rightarrow>
               (case h ! e of
                  SimpleType s \<Rightarrow>
                    [(get_name 1, Element \<lparr>elem_name = get_name 1, elem_type = e\<rparr>)]
                | _ \<Rightarrow> []))
          @ own_content get_name c
      | _ \<Rightarrow> [])"

section \<open>Invariants of resolution\<close>

text \<open>
  \<open>resolved_at h a\<close>: the object at \<open>a\<close> is a ComplexType whose flag is set. A step of the
  resolution keeps the resolved types when every flag that is set before it is set after
  it, at the same address.
\<close>

definition resolved_at :: "heap \<Rightarrow> addr \<Rightarrow> bool" where
  "resolved_at h a =
     (a < length h \<and> (case h ! a of ComplexType c \<Rightarrow> c_resolved c | _ \<Rightarrow> False))"

definition keeps_resolved :: "(heap \<Rightarrow> 'x \<Rightarrow> (heap \<times> 'y) res) \<Rightarrow> bool" where
  "keeps_resolved f =
     (\<forall>h x h' y b. f h x = ok (h', y) \<longrightarrow> resolved_at h b \<longrightarrow> resolved_at h' b)"

section \<open>Graphs of simple and complex types with references by name\<close>

text \<open>
  The graphs on which resolution is shown to return: every object is a SimpleType, a
  ComplexType whose references (extension, restriction, types of its elements and
  attributes) lead to objects of the graph, or an unresolved reference by a name that the
  registry maps to a SimpleType or ComplexType of the graph. The references may form any
  cycle. \<open>pending\<close> counts the ComplexTypes whose flag is not set, and \<open>target\<close> is
  the object that a reference stands for.
\<close>

definition concrete :: "xsd_type \<Rightarrow> bool" where
  "concrete obj = (case obj of SimpleType s \<Rightarrow> True | ComplexType c \<Rightarrow> True | _ \<Rightarrow> False)"

fun node_types :: "node \<Rightarrow> addr list" where
  "node_types (Element e) = [elem_type e]"
| "node_types (Group ms) = concat (map node_types ms)"

definition references :: "complex \<Rightarrow> addr list" where
  "references c =
     (case c_extension c of None \<Rightarrow> [] | Some e \<Rightarrow> [e]) @
     (case c_restriction c of None \<Rightarrow> [] | Some e \<Rightarrow> [e]) @
     (case c_element c of None \<Rightarrow> [] | Some nd \<Rightarrow> node_types nd) @
     map attr_type (c_attributes c)"

definition well_formed_object :: "(string \<Rightarrow> addr option) \<Rightarrow> heap \<Rightarrow> xsd_type \<Rightarrow> bool" where
  "well_formed_object get_type h obj =
     (case obj of
        SimpleType s \<Rightarrow> True
      | ComplexType c \<Rightarrow> list_all (\<lambda>x. x < length h) (references c)
      | UnresolvedType q \<Rightarrow>
          (case get_type q of None \<Rightarrow> False | Some t \<Rightarrow> t < length h \<and> concrete (h ! t))
      | _ \<Rightarrow> False)"

definition well_formed :: "(string \<Rightarrow> addr option) \<Rightarrow> heap \<Rightarrow> bool" where
  "well_formed get_type h = list_all (well_formed_object get_type h) h"

definition pending :: "heap \<Rightarrow> nat" where
  "pending h =
     length (filter (\<lambda>obj. case obj of ComplexType c \<Rightarrow> \<not> c_resolved c | _ \<Rightarrow> False) h)"

definition target :: "(string \<Rightarrow> addr option) \<Rightarrow> heap \<Rightarrow> addr \<Rightarrow> addr" where
  "target get_type h x =
     (case h ! x of
        UnresolvedType q \<Rightarrow> (case get_type q of None \<Rightarrow> x | Some t \<Rightarrow> t)
      | _ \<Rightarrow> x)"

text \<open>
  \<open>evolves h h'\<close>: \<open>h'\<close> has the objects of \<open>h\<close> at the same addresses, where a
  ComplexType may have changed its fields but has not lost its flag.
\<close>

definition evolves_object :: "xsd_type \<Rightarrow> xsd_type \<Rightarrow> bool" where
  "evolves_object obj obj' =
     (case obj of
        ComplexType c \<Rightarrow>
          (case obj' of ComplexType c' \<Rightarrow> c_resolved c \<longrightarrow> c_resolved c' | _ \<Rightarrow> False)
      | _ \<Rightarrow> obj' = obj)"

definition evolves :: "heap \<Rightarrow> heap \<Rightarrow> bool" where
  "evolves h h' = list_all2 evolves_object h h'"

text \<open>
  \<open>resolves_all get_type r k\<close>: on every such graph with at most \<open>k\<close> unresolved
  ComplexTypes, the resolver \<open>r\<close> returns for every object the object it stands for,
  and leaves a graph of the same kind.
\<close>

definition resolves_all :: "(string \<Rightarrow> addr option) \<Rightarrow> resolver \<Rightarrow> nat \<Rightarrow> bool" where
  "resolves_all get_type r k =
     (\<forall>h x. well_formed get_type h \<and> x < length h \<and> pending h \<le> k \<longrightarrow>
        (\<exists>h'. r h x = ok (h', target get_type h x) \<and> well_formed get_type h' \<and> evolves h h'))"

section \<open>Example type graphs\<close>

text \<open>
  A small schema: a string type; \<open>Base\<close> with a sequence holding the element \<open>id\<close> and
  the attribute \<open>lang\<close>; \<open>Derived\<close>, which extends \<open>Base\<close>, has the attribute \<open>unit\<close>
  and a single element \<open>next\<close> whose type is \<open>Derived\<close> itself; \<open>Amount\<close>, which extends
  the string type; and \<open>Loop\<close>, which extends itself.
\<close>

definition value_name :: "nat \<Rightarrow> string" where
  "value_name k = ''_value_'' @ show_nat k"

definition string_type :: simple where
  "string_type = \<lparr>s_class = ''String'', s_name = Some ''xsd:string''\<rparr>"

definition base_type :: complex where
  "base_type =
     complex_init ''Base'' (Some (Group [Element \<lparr>elem_name = ''id'', elem_type = 0\<rparr>]))
       (Some [\<lparr>attr_name = ''lang'', attr_type = 0\<rparr>]) None None"

definition derived_type :: complex where
  "derived_type =
     complex_init ''Derived'' (Some (Element \<lparr>elem_name = ''next'', elem_type = 2\<rparr>))
       (Some [\<lparr>attr_name = ''unit'', attr_type = 0\<rparr>]) None (Some 1)"

definition amount_type :: complex where
  "amount_type =
     complex_init ''Amount'' None (Some [\<lparr>attr_name = ''currency'', attr_type = 0\<rparr>]) None
       (Some 0)"

definition loop_type :: complex where
  "loop_type = complex_init ''Loop'' None None None (Some 4)"

definition example_graph :: heap where
  "example_graph =
     [SimpleType string_type, ComplexType base_type, ComplexType derived_type,
      ComplexType amount_type, ComplexType loop_type]"

fun node_label :: "node \<Rightarrow> string" where
  "node_label (Element e) = elem_name e"
| "node_label (Group ms) = join '', '' (map node_label ms)"

definition example_node_signature :: "node \<Rightarrow> error + string" where
  "example_node_signature nd = Inr (node_label nd)"

definition example_attribute_signature :: "attribute \<Rightarrow> error + string" where
  "example_attribute_signature attr = Inr (attr_name attr)"

text \<open>
  Collaborators for the examples: signatures that print the names; an attribute decoder
  that keeps the text; a content node that reports, for each of its elements, the text of
  the first child with the element's tag; a value object that records its type and its
  fields; and groups that have neither a name nor a serialize of their own.
\<close>

definition example_attr_parse :: "attribute \<Rightarrow> string \<Rightarrow> error + string" where
  "example_attr_parse attr s = Inr s"

definition example_parse_xmlelements ::
  "node \<Rightarrow> xml list \<Rightarrow> string \<Rightarrow> error + (string \<times> string) list" where
  "example_parse_xmlelements nd children name =
     Inr (concat (map
       (\<lambda>e. case find (\<lambda>c. tag c = elem_name e) children of
              None \<Rightarrow> []
            | Some c \<Rightarrow> (case xml_text c of None \<Rightarrow> [] | Some t \<Rightarrow> [(elem_name e, t)]))
       (map snd (node_elements nd))))"

definition example_compound_value ::
  "addr \<Rightarrow> (string \<times> string) list \<Rightarrow> error + addr \<times> (string \<times> string) list" where
  "example_compound_value a kwargs = Inr (a, kwargs)"



definition example_element :: xml where
  "example_element =
     XML ''item'' [(''lang'', ''en''), (''bogus'', ''1'')] [XML ''id'' [] [] (Some ''42'')] None"

text \<open>
  The same schema before resolution, with a reference by name to \<open>Base\<close> and two custom
  types: \<open>Alias\<close>, based on that reference, and \<open>Token\<close>, based on the string type. And a
  schema whose type \<open>Node\<close> refers to itself by name, both as its extension and as the
  type of its element \<open>next\<close>.
\<close>

definition example_registry :: "string \<Rightarrow> addr option" where
  "example_registry = map_of [(''tns:Base'', 1), (''tns:Node'', 2)]"

definition custom_graph :: heap where
  "custom_graph =
     example_graph @
     [UnresolvedType ''tns:Base'', UnresolvedCustomType ''Alias'' 5,
      UnresolvedCustomType ''Token'' 0]"

definition node_type :: complex where
  "node_type =
     complex_init ''Node'' (Some (Element \<lparr>elem_name = ''next'', elem_type = 1\<rparr>))
       (Some [\<lparr>attr_name = ''id'', attr_type = 0\<rparr>]) None (Some 1)"

definition cyclic_graph :: heap where
  "cyclic_graph = [SimpleType string_type, UnresolvedType ''tns:Node'', ComplexType node_type]"

text \<open>The graph with \<open>Node\<close> after resolution: both references lead to \<open>Node\<close> itself.\<close>

definition resolved_node_type :: complex where
  "resolved_node_type =
     \<lparr>c_class = ''Node'',
      c_element = Some (Element \<lparr>elem_name = ''next'', elem_type = 2\<rparr>),
      c_attributes = [\<lparr>attr_name = ''id'', attr_type = 0\<rparr>],
      c_restriction = None, c_extension = Some 2, c_resolved = True\<rparr>"

definition resolved_cyclic_graph :: heap where
  "resolved_cyclic_graph =
     [SimpleType string_type, UnresolvedType ''tns:Node'', ComplexType resolved_node_type]"

text \<open>
  A schema of records: \<open>Address\<close> with the elements \<open>street\<close> and \<open>city\<close>; \<open>Person\<close>
  with \<open>name\<close> and \<open>home\<close>, an \<open>Address\<close>; \<open>Deep\<close>, whose sequence holds the element
  \<open>a\<close> and a choice of \<open>b\<close> and \<open>c\<close>; and \<open>Chain\<close>, whose sequence holds \<open>value\<close> and
  \<open>next\<close>, a \<open>Chain\<close>. And a person, built with the fields in another order.
\<close>

definition address_type :: complex where
  "address_type =
     complex_init ''Address''
       (Some (Group [Element \<lparr>elem_name = ''street'', elem_type = 0\<rparr>,
                     Element \<lparr>elem_name = ''city'', elem_type = 0\<rparr>])) None None None"

definition person_type :: complex where
  "person_type =
     complex_init ''Person''
       (Some (Group [Element \<lparr>elem_name = ''name'', elem_type = 0\<rparr>,
                     Element \<lparr>elem_name = ''home'', elem_type = 1\<rparr>])) None None None"

definition deep_type :: complex where
  "deep_type =
     complex_init ''Deep''
       (Some (Group [Element \<lparr>elem_name = ''a'', elem_type = 0\<rparr>,
                     Group [Element \<lparr>elem_name = ''b'', elem_type = 0\<rparr>,
                            Element \<lparr>elem_name = ''c'', elem_type = 0\<rparr>]])) None None None"

definition chain_type :: complex where
  "chain_type =
     complex_init ''Chain''
       (Some (Group [Element \<lparr>elem_name = ''value'', elem_type = 0\<rparr>,
                     Element \<lparr>elem_name = ''next'', elem_type = 4\<rparr>])) None None None"

definition records_graph :: heap where
  "records_graph =
     [SimpleType string_type, ComplexType address_type, ComplexType person_type,
      ComplexType deep_type, ComplexType chain_type]"


text \<open>And \<open>Tokens\<close>, a ComplexType whose extension is a list of strings.\<close>

definition tokens_type :: complex where
  "tokens_type = complex_init ''Tokens'' None None None (Some 1)"

definition tokens_graph :: heap where
  "tokens_graph = [SimpleType string_type, ListType 0, ComplexType tokens_type]"

section \<open>Lemmas\<close>

subsection \<open>Results and strings\<close>

lemma mapM_all_Inr:
  "(\<forall>x \<in> set xs. f x = Inr (g x)) \<Longrightarrow> mapM f xs = Inr (map g xs)"
  by (induction xs) auto

lemma show_nat_digit: "n < 10 \<Longrightarrow> show_nat n = [digit n]"
  by (simp add: show_nat.simps)

lemma show_nat_small [simp]:
  "show_nat (Suc 0) = ''1''" "show_nat (Suc (Suc 0)) = ''2''" "show_nat 2 = ''2''"
  by (simp_all add: show_nat_digit digit_def)

lemma join_concat:
  "join sep (p # ps) = p @ concat (map (\<lambda>q. sep @ q) ps)"
  by (induction ps arbitrary: p) simp_all

lemma join_case:
  "join sep xs = (case xs of [] \<Rightarrow> [] | p # ps \<Rightarrow> p @ concat (map (\<lambda>q. sep @ q) ps))"
  by (cases xs) (simp_all only: join.simps(1) join_concat list.case)

lemma bindR_simps [simp]:
  "bindR None k = None"
  "bindR (Some (Inl e)) k = Some (Inl e)"
  "bindR (Some (Inr x)) k = k x"
  "bindR (ok x) k = k x"
  "bindR (raise e) k = raise e"
  by (simp_all add: bindR_def ok_def raise_def)

lemma bindR_eq_ok:
  "bindR m k = ok y \<longleftrightarrow> (\<exists>x. m = ok x \<and> k x = ok y)"
  by (auto simp: bindR_def ok_def split: option.splits sum.splits)

lemma ok_inject [simp]: "ok x = ok y \<longleftrightarrow> x = y"
  and ok_not_None [simp]: "ok x \<noteq> None" "None \<noteq> ok x"
  and ok_not_raise [simp]: "ok x \<noteq> raise e" "raise e \<noteq> ok x"
  and raise_not_None [simp]: "raise e \<noteq> None" "None \<noteq> raise e"
  and Some_Inr_ok [simp]: "Some (Inr x) = ok y \<longleftrightarrow> x = y"
  by (simp_all add: ok_def raise_def)

lemma with_complex_eq_ok:
  "with_complex h a k = ok y \<longleftrightarrow>
     a < length h \<and> (\<exists>c. h ! a = ComplexType c \<and> k c = ok y)"
  by (auto simp: with_complex_def split: xsd_type.splits)

subsection \<open>Unfolding the examples\<close>

lemmas example_defs =
  example_graph_def string_type_def base_type_def derived_type_def amount_type_def
  loop_type_def complex_init_def own_content_def value_name_def

lemmas resolve_defs =
  resolve_complex_def resolve_extension_def resolve_restriction_def resolve_content_def
  resolve_attributes_def resolve_custom_def resolve_attribute_def resolve_element_def
  with_complex_def set_complex_def

lemmas graph_defs =
  custom_graph_def cyclic_graph_def node_type_def example_registry_def

subsection \<open>Effective views along the extension\<close>

lemma attributes_chain:
  "ext_chain h as \<Longrightarrow> length as < n \<Longrightarrow>
     attributes n h (hd as) = ok (concat (map (own_attributes h) (rev as)))"
proof (induction h as arbitrary: n rule: ext_chain.induct)
  case (1 h)
  then show ?case by simp
next
  case (2 h a)
  then obtain m where n: "n = Suc m" by (cases n) auto
  from 2 show ?case unfolding n
    by (cases m) (auto simp: own_attributes_def split: xsd_type.splits option.splits)
next
  case (3 h a b bs)
  then obtain m where n: "n = Suc m" by (cases n) auto
  from 3 have "attributes m h b = ok (concat (map (own_attributes h) (rev (b # bs))))"
    unfolding n by simp
  with 3 show ?case unfolding n
    by (auto simp: own_attributes_def split: xsd_type.splits)
qed

lemma elements_nested_chain:
  "ext_chain h as \<Longrightarrow> length as < n \<Longrightarrow>
     elements_nested n get_name h (hd as) =
       ok (concat (map (contributed_content get_name h) (rev as)))"
proof (induction h as arbitrary: n rule: ext_chain.induct)
  case (1 h)
  then show ?case by simp
next
  case (2 h a)
  then obtain m where n: "n = Suc m" by (cases n) auto
  from 2 show ?case unfolding n
    by (auto simp: contributed_content_def split: xsd_type.splits option.splits)
next
  case (3 h a b bs)
  then obtain m where n: "n = Suc m" by (cases n) auto
  from 3 have ih: "elements_nested m get_name h b =
      ok (concat (map (contributed_content get_name h) (rev (b # bs))))"
    unfolding n by simp
  from 3 have b: "b < length h" "\<exists>c. h ! b = ComplexType c"
    by (cases bs; auto split: xsd_type.splits)+
  with 3 ih show ?case unfolding n
    by (auto simp: contributed_content_def split: xsd_type.splits)
qed

lemma attributes_mono:
  "attributes n h a = Some r \<Longrightarrow> n \<le> m \<Longrightarrow> attributes m h a = Some r"
proof (induction n arbitrary: m a r)
  case 0
  then show ?case by simp
next
  case (Suc n)
  then obtain m' where m: "m = Suc m'" and le: "n \<le> m'" by (cases m) auto
  show ?case
  proof (cases "\<not> length h \<le> a \<and> (\<exists>c e. h ! a = ComplexType c \<and> c_extension c = Some e)")
    case True
    then obtain c e where a: "\<not> length h \<le> a" and c: "h ! a = ComplexType c"
      and e: "c_extension c = Some e" by blast
    from Suc.prems(1) have run:
      "bindR (attributes n h e) (\<lambda>result. ok (result @ c_attributes c)) = Some r"
      by (simp add: a c e)
    then obtain r' where r': "attributes n h e = Some r'"
      by (cases "attributes n h e") simp_all
    have "attributes m' h e = Some r'" by (rule Suc.IH [OF r' le])
    with r' run show ?thesis unfolding m by (simp add: a c e)
  next
    case False
    with Suc.prems(1) show ?thesis unfolding m
      by (cases "h ! a") (auto split: option.splits)
  qed
qed

lemma elements_nested_mono:
  "elements_nested n g h a = Some r \<Longrightarrow> n \<le> m \<Longrightarrow> elements_nested m g h a = Some r"
proof (induction n arbitrary: m a r)
  case 0
  then show ?case by simp
next
  case (Suc n)
  then obtain m' where m: "m = Suc m'" and le: "n \<le> m'" by (cases m) auto
  note run = Suc.prems(1)
  show ?case
  proof (cases "length h \<le> a")
    case True
    with run show ?thesis unfolding m by simp
  next
    case a: False
    show ?thesis
    proof (cases "h ! a")
      case c: (ComplexType c)
      show ?thesis
      proof (cases "c_extension c")
        case None
        with run a c show ?thesis unfolding m by simp
      next
        case e: (Some e)
        show ?thesis
        proof (cases "length h \<le> e \<or> (\<exists>s. h ! e = SimpleType s)")
          case True
          with run a c e show ?thesis unfolding m by auto
        next
          case False
          then have le_e: "\<not> length h \<le> e" and ns: "\<forall>s. h ! e \<noteq> SimpleType s" by auto
          from ns have sel: "\<And>k. (case h ! e of
                SimpleType s \<Rightarrow> ok [(g 1, Element \<lparr>elem_name = g 1, elem_type = e\<rparr>)]
              | _ \<Rightarrow> elements_nested k g h e) = elements_nested k g h e"
            by (cases "h ! e") auto
          from run have run':
            "bindR (elements_nested n g h e) (\<lambda>result. ok (result @ own_content g c)) = Some r"
            by (simp add: a c e le_e sel)
          then obtain r' where r': "elements_nested n g h e = Some r'"
            by (cases "elements_nested n g h e") simp_all
          have "elements_nested m' g h e = Some r'" by (rule Suc.IH [OF r' le])
          with r' run' show ?thesis unfolding m by (simp add: a c e le_e sel)
        qed
      qed
    qed (use run a in \<open>simp_all add: m\<close>)
  qed
qed

lemma self_extension_diverges:
  "a < length h \<Longrightarrow> h ! a = ComplexType c \<Longrightarrow> c_extension c = Some a \<Longrightarrow>
     elements_nested n g h a = None \<and> attributes n h a = None"
  by (induction n) simp_all

subsection \<open>The attribute and element phases of parsing\<close>

lemma attr_map_of_fold:
  "fold (\<lambda>attr m. m(attr_name attr \<mapsto> attr)) attrs m0 key = None \<longleftrightarrow>
     m0 key = None \<and> key \<notin> attr_name ` set attrs"
  by (induction attrs arbitrary: m0) auto

lemma attr_map_of_None:
  "attr_map_of attrs key = None \<longleftrightarrow> key \<notin> attr_name ` set attrs"
  by (simp add: attr_map_of_def attr_map_of_fold)

lemma parse_attributes_append:
  "parse_attributes ap am (xs @ ys) kw =
     (case parse_attributes ap am xs kw of
        Inl e \<Rightarrow> Inl e
      | Inr kw' \<Rightarrow> parse_attributes ap am ys kw')"
  by (induction xs arbitrary: kw) (auto split: option.splits sum.splits)

lemma parse_attributes_skip:
  "am key = None \<Longrightarrow>
     parse_attributes ap am (before @ (key, value) # after) kw =
     parse_attributes ap am (before @ after) kw"
  by (simp add: parse_attributes_append split: sum.splits)

subsection \<open>Resolution keeps the flags that are set\<close>

lemma keeps_resolvedD:
  "keeps_resolved f \<Longrightarrow> f h x = ok (h', y) \<Longrightarrow> resolved_at h b \<Longrightarrow> resolved_at h' b"
  unfolding keeps_resolved_def by blast

lemma keeps_resolvedI:
  "(\<And>h x h' y b. f h x = ok (h', y) \<Longrightarrow> resolved_at h b \<Longrightarrow> resolved_at h' b) \<Longrightarrow>
     keeps_resolved f"
  unfolding keeps_resolved_def by blast

lemma resolved_at_set_complex:
  "resolved_at h b \<Longrightarrow> (\<And>c. c_resolved c \<Longrightarrow> c_resolved (f c)) \<Longrightarrow>
     resolved_at (set_complex h a f) b"
proof (cases "h ! a")
  case (ComplexType c)
  assume b: "resolved_at h b" and f: "\<And>c. c_resolved c \<Longrightarrow> c_resolved (f c)"
  show ?thesis
  proof (cases "b = a")
    case True
    with b ComplexType f [of c] show ?thesis
      by (simp add: resolved_at_def set_complex_def)
  next
    case False
    with b ComplexType show ?thesis
      by (simp add: resolved_at_def set_complex_def)
  qed
qed (simp_all add: set_complex_def)

lemma resolved_at_mark:
  "a < length h \<Longrightarrow> h ! a = ComplexType c \<Longrightarrow>
     resolved_at (set_complex h a (\<lambda>c. c\<lparr>c_resolved := True\<rparr>)) a"
  by (simp add: resolved_at_def set_complex_def)

lemma keeps_resolve_attribute:
  "keeps_resolved r \<Longrightarrow> keeps_resolved (resolve_attribute r)"
  by (rule keeps_resolvedI)
     (auto simp: resolve_attribute_def bindR_eq_ok dest: keeps_resolvedD)

lemma keeps_resolve_element:
  "keeps_resolved r \<Longrightarrow> keeps_resolved (resolve_element r)"
  by (rule keeps_resolvedI)
     (auto simp: resolve_element_def bindR_eq_ok dest: keeps_resolvedD)

lemma thread_keeps:
  "keeps_resolved f \<Longrightarrow> thread f h xs = ok (h', ys) \<Longrightarrow> resolved_at h b \<Longrightarrow>
     resolved_at h' b"
proof (induction xs arbitrary: h ys)
  case Nil
  then show ?case by simp
next
  case (Cons x xs)
  from Cons.prems(2) obtain h1 y ys' where step: "f h x = ok (h1, y)"
    and rest: "thread f h1 xs = ok (h', ys')"
    by (auto simp: bindR_eq_ok)
  from keeps_resolvedD [OF Cons.prems(1) step Cons.prems(3)]
  have "resolved_at h1 b" .
  from Cons.IH [OF Cons.prems(1) rest this] show ?case .
qed

lemma resolve_nodes_keeps:
  assumes "\<And>m h h' m'. m \<in> set ms \<Longrightarrow> resolve_node r h m = ok (h', m') \<Longrightarrow>
      resolved_at h b \<Longrightarrow> resolved_at h' b"
  shows "resolve_nodes r h ms = ok (h', ms') \<Longrightarrow> resolved_at h b \<Longrightarrow> resolved_at h' b"
  using assms
proof (induction ms arbitrary: h ms')
  case Nil
  then show ?case by simp
next
  case (Cons m ms)
  from Cons.prems(1) obtain h1 m' ms1 where step: "resolve_node r h m = ok (h1, m')"
    and rest: "resolve_nodes r h1 ms = ok (h', ms1)"
    by (auto simp: bindR_eq_ok)
  from Cons.prems(3) [OF _ step Cons.prems(2)] have "resolved_at h1 b" by simp
  show ?case
  proof (rule Cons.IH [OF rest \<open>resolved_at h1 b\<close>])
    fix m0 h0 h0' m0'
    assume "m0 \<in> set ms" and "resolve_node r h0 m0 = ok (h0', m0')" and "resolved_at h0 b"
    then show "resolved_at h0' b" using Cons.prems(3) [of m0 h0 h0' m0'] by simp
  qed
qed

lemma resolve_node_keeps:
  assumes "keeps_resolved r"
  shows "resolve_node r h nd = ok (h', nd') \<Longrightarrow> resolved_at h b \<Longrightarrow> resolved_at h' b"
proof (induction nd arbitrary: h h' nd')
  case (Element e)
  from Element.prems(1) obtain e' where "resolve_element r h e = ok (h', e')"
    by (auto simp: bindR_eq_ok)
  from keeps_resolvedD [OF keeps_resolve_element [OF assms] this Element.prems(2)]
  show ?case .
next
  case (Group ms)
  from Group.prems(1) obtain ms' where run: "resolve_nodes r h ms = ok (h', ms')"
    by (auto simp: bindR_eq_ok)
  show ?case
    by (rule resolve_nodes_keeps [OF _ run Group.prems(2)]) (rule Group.IH)
qed

lemma keeps_resolve_node:
  "keeps_resolved r \<Longrightarrow> keeps_resolved (resolve_node r)"
  by (rule keeps_resolvedI) (rule resolve_node_keeps)

lemma resolve_extension_keeps:
  assumes "keeps_resolved r" and "resolve_extension r h a = ok h'" and "resolved_at h b"
  shows "resolved_at h' b"
proof -
  from assms(2) obtain c where c: "h ! a = ComplexType c" and run:
    "(case c_extension c of
        None \<Rightarrow> ok h
      | Some e \<Rightarrow> bindR (r h e)
          (\<lambda>(h', e'). ok (set_complex h' a (\<lambda>c. c\<lparr>c_extension := Some e'\<rparr>)))) = ok h'"
    unfolding resolve_extension_def with_complex_eq_ok by blast
  show ?thesis
  proof (cases "c_extension c")
    case None
    with run assms(3) show ?thesis by simp
  next
    case (Some e)
    with run obtain h1 e' where call: "r h e = ok (h1, e')"
      and h': "h' = set_complex h1 a (\<lambda>c. c\<lparr>c_extension := Some e'\<rparr>)"
      by (auto simp: bindR_eq_ok)
    from keeps_resolvedD [OF assms(1) call assms(3)] show ?thesis
      unfolding h' by (rule resolved_at_set_complex) simp
  qed
qed

lemma resolve_restriction_keeps:
  assumes "keeps_resolved r" and "resolve_restriction r h a = ok h'" and "resolved_at h b"
  shows "resolved_at h' b"
proof -
  from assms(2) obtain c where c: "h ! a = ComplexType c" and run:
    "(case c_restriction c of
        None \<Rightarrow> ok h
      | Some e \<Rightarrow> bindR (r h e)
          (\<lambda>(h', e'). ok (set_complex h' a (\<lambda>c. c\<lparr>c_restriction := Some e'\<rparr>)))) = ok h'"
    unfolding resolve_restriction_def with_complex_eq_ok by blast
  show ?thesis
  proof (cases "c_restriction c")
    case None
    with run assms(3) show ?thesis by simp
  next
    case (Some e)
    with run obtain h1 e' where call: "r h e = ok (h1, e')"
      and h': "h' = set_complex h1 a (\<lambda>c. c\<lparr>c_restriction := Some e'\<rparr>)"
      by (auto simp: bindR_eq_ok)
    from keeps_resolvedD [OF assms(1) call assms(3)] show ?thesis
      unfolding h' by (rule resolved_at_set_complex) simp
  qed
qed

lemma resolve_content_keeps:
  assumes "keeps_resolved r" and "resolve_content r h a = ok h'" and "resolved_at h b"
  shows "resolved_at h' b"
proof -
  from assms(2) obtain c where c: "h ! a = ComplexType c" and run:
    "(case c_element c of
        None \<Rightarrow> ok h
      | Some nd \<Rightarrow>
          if truthy nd
          then bindR (resolve_node r h nd)
                 (\<lambda>(h', nd'). ok (set_complex h' a (\<lambda>c. c\<lparr>c_element := Some nd'\<rparr>)))
          else ok h) = ok h'"
    unfolding resolve_content_def with_complex_eq_ok by blast
  show ?thesis
  proof (cases "\<exists>nd. c_element c = Some nd \<and> truthy nd")
    case False
    with run assms(3) show ?thesis by (cases "c_element c") auto
  next
    case True
    then obtain nd where "c_element c = Some nd" "truthy nd" by blast
    with run obtain h1 nd' where call: "resolve_node r h nd = ok (h1, nd')"
      and h': "h' = set_complex h1 a (\<lambda>c. c\<lparr>c_element := Some nd'\<rparr>)"
      by (auto simp: bindR_eq_ok)
    from keeps_resolvedD [OF keeps_resolve_node [OF assms(1)] call assms(3)] show ?thesis
      unfolding h' by (rule resolved_at_set_complex) simp
  qed
qed

lemma resolve_attributes_keeps:
  assumes "keeps_resolved r" and "resolve_attributes r h a = ok h'" and "resolved_at h b"
  shows "resolved_at h' b"
proof -
  from assms(2) obtain c h1 ats where c: "h ! a = ComplexType c"
    and call: "thread (resolve_attribute r) h (c_attributes c) = ok (h1, ats)"
    and h': "h' = set_complex h1 a (\<lambda>c. c\<lparr>c_attributes := ats\<rparr>)"
    unfolding resolve_attributes_def with_complex_eq_ok by (auto simp: bindR_eq_ok)
  from thread_keeps [OF keeps_resolve_attribute [OF assms(1)] call assms(3)] show ?thesis
    unfolding h' by (rule resolved_at_set_complex) simp
qed

lemma resolve_complex_keeps:
  assumes "keeps_resolved r" and "resolve_complex r h a = ok (h', a')"
  shows "a' = a" and "resolved_at h' a" and "resolved_at h b \<Longrightarrow> resolved_at h' b"
proof -
  from assms(2) obtain c where a: "a < length h" and c: "h ! a = ComplexType c" and run:
    "(if c_resolved c then ok (h, a)
      else
        bindR (resolve_extension r (set_complex h a (\<lambda>c. c\<lparr>c_resolved := True\<rparr>)) a) (\<lambda>h1.
        bindR (resolve_restriction r h1 a) (\<lambda>h2.
        bindR (resolve_content r h2 a) (\<lambda>h3.
        bindR (resolve_attributes r h3 a) (\<lambda>h4.
        ok (h4, a)))))) = ok (h', a')"
    unfolding resolve_complex_def with_complex_eq_ok by blast
  have "a' = a \<and> resolved_at h' a \<and> (resolved_at h b \<longrightarrow> resolved_at h' b)"
  proof (cases "c_resolved c")
    case True
    with run a c show ?thesis by (simp add: resolved_at_def)
  next
    case False
    let ?h0 = "set_complex h a (\<lambda>c. c\<lparr>c_resolved := True\<rparr>)"
    from False run obtain h1 h2 h3 where
      s1: "resolve_extension r ?h0 a = ok h1" and
      s2: "resolve_restriction r h1 a = ok h2" and
      s3: "resolve_content r h2 a = ok h3" and
      s4: "resolve_attributes r h3 a = ok h'" and a': "a' = a"
      by (auto simp: bindR_eq_ok)
    have steps: "resolved_at ?h0 x \<Longrightarrow> resolved_at h' x" for x
      using resolve_attributes_keeps [OF assms(1) s4]
        resolve_content_keeps [OF assms(1) s3]
        resolve_restriction_keeps [OF assms(1) s2]
        resolve_extension_keeps [OF assms(1) s1]
      by blast
    have "resolved_at ?h0 a" using a c by (rule resolved_at_mark)
    moreover have "resolved_at h b \<Longrightarrow> resolved_at ?h0 b"
      by (rule resolved_at_set_complex) simp_all
    ultimately show ?thesis using steps a' by blast
  qed
  then show "a' = a" and "resolved_at h' a" and "resolved_at h b \<Longrightarrow> resolved_at h' b"
    by blast+
qed

lemma resolved_at_append: "resolved_at h b \<Longrightarrow> resolved_at (h @ xs) b"
  by (simp add: resolved_at_def nth_append)

lemma resolve_custom_keeps:
  assumes "keeps_resolved r" and "resolve_custom r h name b0 = ok (h', y)"
    and "resolved_at h b"
  shows "resolved_at h' b"
proof -
  from assms(2) obtain h1 base obj where
    base: "(case h ! b0 of UnresolvedType q \<Rightarrow> r h b0 | _ \<Rightarrow> ok (h, b0)) = ok (h1, base)"
    and h': "h' = h1 @ [obj]"
    by (auto simp: resolve_custom_def bindR_eq_ok split: if_splits sum.splits)
  have "resolved_at h1 b"
  proof (cases "\<exists>q. h ! b0 = UnresolvedType q")
    case True
    with base have "r h b0 = ok (h1, base)" by auto
    from keeps_resolvedD [OF assms(1) this assms(3)] show ?thesis .
  next
    case False
    with base have "h1 = h" by (cases "h ! b0") auto
    with assms(3) show ?thesis by simp
  qed
  then show ?thesis unfolding h' by (rule resolved_at_append)
qed

lemma resolve_keeps: "keeps_resolved (resolve n gt)"
proof (induction n)
  case 0
  show ?case by (rule keeps_resolvedI) simp
next
  case (Suc n)
  show ?case
  proof (rule keeps_resolvedI)
    fix h a h' y b
    assume run: "resolve (Suc n) gt h a = ok (h', y)" and b: "resolved_at h b"
    from run have a: "a < length h" by (auto split: if_splits)
    show "resolved_at h' b"
    proof (cases "h ! a")
      case Type
      with run a show ?thesis by simp
    next
      case (UnresolvedType q)
      with run a obtain t where "resolve n gt h t = ok (h', y)"
        by (cases "gt q") auto
      from keeps_resolvedD [OF Suc this b] show ?thesis .
    next
      case (UnresolvedCustomType name b0)
      with run a have "resolve_custom (resolve n gt) h name b0 = ok (h', y)" by simp
      from resolve_custom_keeps [OF Suc this b] show ?thesis .
    next
      case (SimpleType s)
      with run a b show ?thesis by simp
    next
      case (ComplexType c)
      with run a have "resolve_complex (resolve n gt) h a = ok (h', y)" by simp
      from resolve_complex_keeps(3) [OF Suc this b] show ?thesis .
    next
      case (ListType i)
      with run a obtain h1 i' where call: "resolve n gt h i = ok (h1, i')"
        and h': "h' = h1[a := ListType i']"
        by (auto simp: bindR_eq_ok)
      from ListType b have "b \<noteq> a" by (auto simp: resolved_at_def)
      with keeps_resolvedD [OF Suc call b] show ?thesis
        unfolding h' by (simp add: resolved_at_def)
    next
      case (UnionType items)
      with run a obtain h1 items' where call: "thread (resolve n gt) h items = ok (h1, items')"
        and h': "h' = h1[a := UnionType items']"
        by (auto simp: bindR_eq_ok)
      from UnionType b have "b \<noteq> a" by (auto simp: resolved_at_def)
      with thread_keeps [OF Suc call b] show ?thesis
        unfolding h' by (simp add: resolved_at_def)
    qed
  qed
qed

lemma resolve_resolved:
  "resolved_at h a \<Longrightarrow> resolve (Suc m) gt h a = ok (h, a)"
  by (cases "h ! a")
     (auto simp: resolved_at_def resolve_complex_def with_complex_def)

subsection \<open>Resolution returns on graphs of simple and complex types\<close>

lemma evolves_object_refl: "evolves_object obj obj"
  by (cases obj) (simp_all add: evolves_object_def)

lemma evolves_object_trans:
  "evolves_object a b \<Longrightarrow> evolves_object b c \<Longrightarrow> evolves_object a c"
  by (cases a; cases b; cases c) (simp_all add: evolves_object_def)

lemma evolves_refl: "evolves h h"
  unfolding evolves_def by (rule list_all2_refl) (rule evolves_object_refl)

lemma evolves_trans: "evolves h1 h2 \<Longrightarrow> evolves h2 h3 \<Longrightarrow> evolves h1 h3"
  unfolding evolves_def
  using list_all2_trans [of evolves_object evolves_object evolves_object h1 h2 h3]
    evolves_object_trans
  by blast

lemma evolves_length: "evolves h h' \<Longrightarrow> length h' = length h"
  unfolding evolves_def by (simp add: list_all2_lengthD)

lemma evolves_nth: "evolves h h' \<Longrightarrow> x < length h \<Longrightarrow> evolves_object (h ! x) (h' ! x)"
  unfolding evolves_def by (rule list_all2_nthD)

lemma evolves_concrete:
  "evolves h h' \<Longrightarrow> x < length h \<Longrightarrow> concrete (h' ! x) = concrete (h ! x)"
  using evolves_nth [of h h' x]
  by (cases "h ! x"; cases "h' ! x") (simp_all add: evolves_object_def concrete_def)

lemma evolves_complex:
  "evolves h h' \<Longrightarrow> x < length h \<Longrightarrow> h ! x = ComplexType c \<Longrightarrow>
     \<exists>c'. h' ! x = ComplexType c'"
  using evolves_nth [of h h' x]
  by (cases "h' ! x") (simp_all add: evolves_object_def)

lemma evolves_target:
  "evolves h h' \<Longrightarrow> x < length h \<Longrightarrow> target gt h' x = target gt h x"
  using evolves_nth [of h h' x]
  by (cases "h ! x"; cases "h' ! x") (simp_all add: evolves_object_def target_def)

lemma evolves_pending: "evolves h h' \<Longrightarrow> pending h' \<le> pending h"
  unfolding evolves_def pending_def
proof (induction rule: list_all2_induct)
  case Nil
  then show ?case by simp
next
  case (Cons obj h obj' h')
  then show ?case
    by (cases obj; cases obj') (auto simp: evolves_object_def)
qed

lemma evolves_update:
  "a < length h \<Longrightarrow> evolves_object (h ! a) obj' \<Longrightarrow> evolves h (h[a := obj'])"
  unfolding evolves_def
  by (simp add: list_all2_conv_all_nth nth_list_update evolves_object_refl)

lemma well_formed_object_evolves:
  "evolves h h' \<Longrightarrow> well_formed_object gt h obj \<Longrightarrow> well_formed_object gt h' obj"
  by (cases obj)
     (auto simp: well_formed_object_def evolves_length evolves_concrete split: option.splits)

lemma well_formed_nth:
  "well_formed gt h \<Longrightarrow> x < length h \<Longrightarrow> well_formed_object gt h (h ! x)"
  by (simp add: well_formed_def list_all_length)

lemma well_formed_update:
  assumes "well_formed gt h" and "a < length h" and "evolves_object (h ! a) obj'"
    and "well_formed_object gt h obj'"
  shows "well_formed gt (h[a := obj'])"
proof -
  have ev: "evolves h (h[a := obj'])" using assms(2,3) by (rule evolves_update)
  have "well_formed_object gt (h[a := obj']) ((h[a := obj']) ! x)" if "x < length h" for x
  proof (cases "x = a")
    case True
    with assms(2,4) well_formed_object_evolves [OF ev] show ?thesis by simp
  next
    case False
    with well_formed_nth [OF assms(1) that] well_formed_object_evolves [OF ev]
    show ?thesis by simp
  qed
  then show ?thesis by (simp add: well_formed_def list_all_length)
qed

lemma well_formed_target:
  assumes "well_formed gt h" and "x < length h"
  shows "target gt h x < length h" and "concrete (h ! target gt h x)"
  using well_formed_nth [OF assms] assms(2)
  by (cases "h ! x"; auto simp: well_formed_object_def target_def concrete_def
        split: option.splits)+

lemma target_concrete: "concrete (h ! x) \<Longrightarrow> target gt h x = x"
  by (cases "h ! x") (simp_all add: concrete_def target_def)

lemma well_formed_references:
  "well_formed gt h \<Longrightarrow> a < length h \<Longrightarrow> h ! a = ComplexType c \<Longrightarrow>
     list_all (\<lambda>x. x < length h) (references c)"
  using well_formed_nth [of gt h a] by (simp add: well_formed_object_def)

lemma pending_mark:
  assumes "a < length h" and "h ! a = ComplexType c" and "\<not> c_resolved c"
  shows "pending h = Suc (pending (h[a := ComplexType (c\<lparr>c_resolved := True\<rparr>)]))"
proof -
  have h: "h = take a h @ ComplexType c # drop (Suc a) h"
    using assms(1,2) id_take_nth_drop by metis
  have "h[a := ComplexType (c\<lparr>c_resolved := True\<rparr>)] =
      take a h @ ComplexType (c\<lparr>c_resolved := True\<rparr>) # drop (Suc a) h"
    using assms(1) by (rule upd_conv_take_nth_drop)
  then show ?thesis
    using assms(3) by (subst h) (simp add: pending_def)
qed

lemma pending_positive:
  "a < length h \<Longrightarrow> h ! a = ComplexType c \<Longrightarrow> \<not> c_resolved c \<Longrightarrow> 0 < pending h"
proof -
  assume a: "a < length h" and c: "h ! a = ComplexType c" and u: "\<not> c_resolved c"
  from a have "h ! a \<in> set h" by simp
  with c u have "ComplexType c \<in>
      set (filter (\<lambda>obj. case obj of ComplexType c \<Rightarrow> \<not> c_resolved c | _ \<Rightarrow> False) h)"
    by simp
  then show ?thesis unfolding pending_def by (simp only: length_pos_if_in_set)
qed

lemma set_complex_step:
  assumes "well_formed gt h" and "a < length h" and "h ! a = ComplexType c"
    and "list_all (\<lambda>x. x < length h) (references (f c))"
    and "c_resolved c \<longrightarrow> c_resolved (f c)"
  shows "well_formed gt (set_complex h a f) \<and> evolves h (set_complex h a f)"
proof -
  have eq: "set_complex h a f = h[a := ComplexType (f c)]"
    using assms(3) by (simp add: set_complex_def)
  have ev: "evolves_object (h ! a) (ComplexType (f c))"
    using assms(3,5) by (simp add: evolves_object_def)
  have wfo: "well_formed_object gt h (ComplexType (f c))"
    using assms(4) by (simp add: well_formed_object_def)
  show ?thesis
    unfolding eq
    using well_formed_update [OF assms(1,2) ev wfo] evolves_update [OF assms(2) ev]
    by simp
qed

lemma resolves_allD:
  "resolves_all gt r k \<Longrightarrow> well_formed gt h \<Longrightarrow> x < length h \<Longrightarrow> pending h \<le> k \<Longrightarrow>
     \<exists>h'. r h x = ok (h', target gt h x) \<and> well_formed gt h' \<and> evolves h h'"
  unfolding resolves_all_def by blast

lemma thread_returns:
  assumes step: "\<And>h x. well_formed gt h \<Longrightarrow> pending h \<le> k \<Longrightarrow> ty x < length h \<Longrightarrow>
      \<exists>h' x'. f h x = ok (h', x') \<and> well_formed gt h' \<and> evolves h h' \<and> ty x' < length h"
  shows "well_formed gt h \<Longrightarrow> pending h \<le> k \<Longrightarrow> list_all (\<lambda>x. x < length h) (map ty xs) \<Longrightarrow>
     \<exists>h' xs'. thread f h xs = ok (h', xs') \<and> well_formed gt h' \<and> evolves h h' \<and>
       list_all (\<lambda>x. x < length h) (map ty xs')"
proof (induction xs arbitrary: h)
  case Nil
  then show ?case by (auto intro: evolves_refl)
next
  case (Cons x xs)
  from Cons.prems have x: "ty x < length h" by simp
  from step [OF Cons.prems(1,2) x] obtain h1 x' where
    call: "f h x = ok (h1, x')" and wf1: "well_formed gt h1" and ev1: "evolves h h1"
    and x': "ty x' < length h" by blast
  note len = evolves_length [OF ev1]
  from evolves_pending [OF ev1] Cons.prems(2) have p1: "pending h1 \<le> k" by simp
  from Cons.prems(3) have "list_all (\<lambda>x. x < length h1) (map ty xs)" by (simp add: len)
  from Cons.IH [OF wf1 p1 this] obtain h' xs' where
    rest: "thread f h1 xs = ok (h', xs')" and wf': "well_formed gt h'" and ev': "evolves h1 h'"
    and xs': "list_all (\<lambda>x. x < length h1) (map ty xs')" by blast
  have "thread f h (x # xs) = ok (h', x' # xs')" by (simp add: call rest)
  moreover have "evolves h h'" using ev1 ev' by (rule evolves_trans)
  moreover have "list_all (\<lambda>x. x < length h) (map ty (x' # xs'))"
    using x' xs' by (simp add: len)
  ultimately show ?case using wf' by blast
qed

lemma resolve_attribute_returns:
  assumes "resolves_all gt r k" and "well_formed gt h" and "pending h \<le> k"
    and "attr_type at < length h"
  shows "\<exists>h' at'. resolve_attribute r h at = ok (h', at') \<and> well_formed gt h' \<and>
     evolves h h' \<and> attr_type at' < length h"
proof -
  from resolves_allD [OF assms(1,2,4,3)] obtain h' where
    "r h (attr_type at) = ok (h', target gt h (attr_type at))"
    "well_formed gt h'" "evolves h h'" by blast
  with well_formed_target(1) [OF assms(2,4)] show ?thesis
    by (auto simp: resolve_attribute_def)
qed

lemma resolve_element_returns:
  assumes "resolves_all gt r k" and "well_formed gt h" and "pending h \<le> k"
    and "elem_type e < length h"
  shows "\<exists>h' e'. resolve_element r h e = ok (h', e') \<and> well_formed gt h' \<and>
     evolves h h' \<and> elem_type e' < length h"
proof -
  from resolves_allD [OF assms(1,2,4,3)] obtain h' where
    "r h (elem_type e) = ok (h', target gt h (elem_type e))"
    "well_formed gt h'" "evolves h h'" by blast
  with well_formed_target(1) [OF assms(2,4)] show ?thesis
    by (auto simp: resolve_element_def)
qed

lemma resolve_nodes_returns:
  assumes "\<And>m h. m \<in> set ms \<Longrightarrow> well_formed gt h \<Longrightarrow> pending h \<le> k \<Longrightarrow>
      list_all (\<lambda>x. x < length h) (node_types m) \<Longrightarrow>
      \<exists>h' m'. resolve_node r h m = ok (h', m') \<and> well_formed gt h' \<and> evolves h h' \<and>
        list_all (\<lambda>x. x < length h) (node_types m')"
  shows "well_formed gt h \<Longrightarrow> pending h \<le> k \<Longrightarrow>
     list_all (\<lambda>x. x < length h) (concat (map node_types ms)) \<Longrightarrow>
     \<exists>h' ms'. resolve_nodes r h ms = ok (h', ms') \<and> well_formed gt h' \<and> evolves h h' \<and>
       list_all (\<lambda>x. x < length h) (concat (map node_types ms'))"
  using assms
proof (induction ms arbitrary: h)
  case Nil
  then show ?case by (auto intro: evolves_refl)
next
  case (Cons m ms)
  from Cons.prems(3) have m: "list_all (\<lambda>x. x < length h) (node_types m)"
    and ms: "list_all (\<lambda>x. x < length h) (concat (map node_types ms))" by simp_all
  from Cons.prems(4) [OF _ Cons.prems(1,2) m] obtain h1 m' where
    step: "resolve_node r h m = ok (h1, m')" and wf1: "well_formed gt h1"
    and ev1: "evolves h h1" and m': "list_all (\<lambda>x. x < length h) (node_types m')"
    by auto
  note len = evolves_length [OF ev1]
  from evolves_pending [OF ev1] Cons.prems(2) have p1: "pending h1 \<le> k" by simp
  from ms have ms1: "list_all (\<lambda>x. x < length h1) (concat (map node_types ms))"
    by (simp add: len)
  have ih: "\<And>m h. m \<in> set ms \<Longrightarrow> well_formed gt h \<Longrightarrow> pending h \<le> k \<Longrightarrow>
      list_all (\<lambda>x. x < length h) (node_types m) \<Longrightarrow>
      \<exists>h' m'. resolve_node r h m = ok (h', m') \<and> well_formed gt h' \<and> evolves h h' \<and>
        list_all (\<lambda>x. x < length h) (node_types m')"
    using Cons.prems(4) by simp
  from Cons.IH [OF wf1 p1 ms1 ih] obtain h' ms' where
    rest: "resolve_nodes r h1 ms = ok (h', ms')" and wf': "well_formed gt h'"
    and ev': "evolves h1 h'"
    and ms': "list_all (\<lambda>x. x < length h1) (concat (map node_types ms'))" by blast
  have "resolve_nodes r h (m # ms) = ok (h', m' # ms')" by (simp add: step rest)
  moreover have "evolves h h'" using ev1 ev' by (rule evolves_trans)
  moreover have "list_all (\<lambda>x. x < length h) (concat (map node_types (m' # ms')))"
    using m' ms' by (simp add: len)
  ultimately show ?case using wf' by blast
qed

lemma resolve_node_returns:
  assumes "resolves_all gt r k"
  shows "well_formed gt h \<Longrightarrow> pending h \<le> k \<Longrightarrow>
     list_all (\<lambda>x. x < length h) (node_types nd) \<Longrightarrow>
     \<exists>h' nd'. resolve_node r h nd = ok (h', nd') \<and> well_formed gt h' \<and>
       evolves h h' \<and> list_all (\<lambda>x. x < length h) (node_types nd')"
proof (induction nd arbitrary: h)
  case (Element e)
  then have "elem_type e < length h" by simp
  from resolve_element_returns [OF assms Element.prems(1,2) this] show ?case
    by auto
next
  case (Group ms)
  from Group.prems(3) have "list_all (\<lambda>x. x < length h) (concat (map node_types ms))"
    by simp
  from resolve_nodes_returns [where r = r and gt = gt and k = k, OF Group.IH Group.prems(1,2) this]
  show ?case by auto
qed

lemma references_extension:
  "list_all P (references c) \<Longrightarrow> P t \<Longrightarrow> list_all P (references (c\<lparr>c_extension := Some t\<rparr>))"
  by (simp add: references_def split: option.splits)

lemma references_restriction:
  "list_all P (references c) \<Longrightarrow> P t \<Longrightarrow> list_all P (references (c\<lparr>c_restriction := Some t\<rparr>))"
  by (simp add: references_def split: option.splits)

lemma references_element:
  "list_all P (references c) \<Longrightarrow> list_all P (node_types nd) \<Longrightarrow>
     list_all P (references (c\<lparr>c_element := Some nd\<rparr>))"
  by (simp add: references_def split: option.splits)

lemma references_attributes:
  "list_all P (references c) \<Longrightarrow> list_all P (map attr_type ats) \<Longrightarrow>
     list_all P (references (c\<lparr>c_attributes := ats\<rparr>))"
  by (simp add: references_def split: option.splits)

lemma references_parts:
  "list_all P (references c) \<Longrightarrow>
     (c_extension c = Some e \<longrightarrow> P e) \<and> (c_restriction c = Some e \<longrightarrow> P e) \<and>
     (c_element c = Some nd \<longrightarrow> list_all P (node_types nd)) \<and>
     list_all P (map attr_type (c_attributes c))"
  by (auto simp: references_def split: option.splits)

lemma references_mark [simp]: "references (c\<lparr>c_resolved := True\<rparr>) = references c"
  by (simp add: references_def)

lemma field_step:
  assumes "a < length h" and "h ! a = ComplexType c"
    and "well_formed gt h1" and "evolves h h1"
    and refs: "\<And>c1. list_all (\<lambda>x. x < length h1) (references c1) \<Longrightarrow>
      list_all (\<lambda>x. x < length h1) (references (f c1))"
    and flag: "\<And>c1. c_resolved c1 \<longrightarrow> c_resolved (f c1)"
  shows "well_formed gt (set_complex h1 a f) \<and> evolves h (set_complex h1 a f)"
proof -
  note len = evolves_length [OF assms(4)]
  from evolves_complex [OF assms(4,1,2)] obtain c1 where c1: "h1 ! a = ComplexType c1" by blast
  from assms(1) len have a1: "a < length h1" by simp
  from well_formed_references [OF assms(3) a1 c1]
  have "list_all (\<lambda>x. x < length h1) (references (f c1))" by (rule refs)
  from set_complex_step [where f = f, OF assms(3) a1 c1 this flag [of c1]]
  show ?thesis using assms(4) by (auto intro: evolves_trans)
qed

lemma resolve_extension_returns:
  assumes "resolves_all gt r k" and "well_formed gt h" and "pending h \<le> k"
    and "a < length h" and "h ! a = ComplexType c"
  shows "\<exists>h'. resolve_extension r h a = ok h' \<and> well_formed gt h' \<and> evolves h h'"
proof (cases "c_extension c")
  case None
  with assms show ?thesis
    by (auto simp: resolve_extension_def with_complex_def intro: evolves_refl)
next
  case (Some e)
  from references_parts [OF well_formed_references [OF assms(2,4,5)], of e] Some
  have e: "e < length h" by simp
  from resolves_allD [OF assms(1,2) e assms(3)] obtain h1 where
    call: "r h e = ok (h1, target gt h e)" and wf1: "well_formed gt h1" and ev1: "evolves h h1"
    by blast
  from well_formed_target(1) [OF assms(2) e] evolves_length [OF ev1]
  have t: "target gt h e < length h1" by simp
  have "well_formed gt (set_complex h1 a (\<lambda>c. c\<lparr>c_extension := Some (target gt h e)\<rparr>)) \<and>
      evolves h (set_complex h1 a (\<lambda>c. c\<lparr>c_extension := Some (target gt h e)\<rparr>))"
    using assms(4,5) wf1 ev1
    by (rule field_step) (simp_all add: references_extension t)
  with assms(4,5) Some call show ?thesis
    by (auto simp: resolve_extension_def with_complex_def)
qed

lemma resolve_restriction_returns:
  assumes "resolves_all gt r k" and "well_formed gt h" and "pending h \<le> k"
    and "a < length h" and "h ! a = ComplexType c"
  shows "\<exists>h'. resolve_restriction r h a = ok h' \<and> well_formed gt h' \<and> evolves h h'"
proof (cases "c_restriction c")
  case None
  with assms show ?thesis
    by (auto simp: resolve_restriction_def with_complex_def intro: evolves_refl)
next
  case (Some e)
  from references_parts [OF well_formed_references [OF assms(2,4,5)], of e] Some
  have e: "e < length h" by simp
  from resolves_allD [OF assms(1,2) e assms(3)] obtain h1 where
    call: "r h e = ok (h1, target gt h e)" and wf1: "well_formed gt h1" and ev1: "evolves h h1"
    by blast
  from well_formed_target(1) [OF assms(2) e] evolves_length [OF ev1]
  have t: "target gt h e < length h1" by simp
  have "well_formed gt (set_complex h1 a (\<lambda>c. c\<lparr>c_restriction := Some (target gt h e)\<rparr>)) \<and>
      evolves h (set_complex h1 a (\<lambda>c. c\<lparr>c_restriction := Some (target gt h e)\<rparr>))"
    using assms(4,5) wf1 ev1
    by (rule field_step) (simp_all add: references_restriction t)
  with assms(4,5) Some call show ?thesis
    by (auto simp: resolve_restriction_def with_complex_def)
qed

lemma resolve_content_returns:
  assumes "resolves_all gt r k" and "well_formed gt h" and "pending h \<le> k"
    and "a < length h" and "h ! a = ComplexType c"
  shows "\<exists>h'. resolve_content r h a = ok h' \<and> well_formed gt h' \<and> evolves h h'"
proof (cases "\<exists>nd. c_element c = Some nd \<and> truthy nd")
  case False
  with assms show ?thesis
    by (cases "c_element c")
       (auto simp: resolve_content_def with_complex_def intro: evolves_refl)
next
  case True
  then obtain nd where nd: "c_element c = Some nd" "truthy nd" by blast
  from references_parts [OF well_formed_references [OF assms(2,4,5)], of _ nd] nd
  have "list_all (\<lambda>x. x < length h) (node_types nd)" by simp
  from resolve_node_returns [OF assms(1,2,3) this] obtain h1 nd' where
    call: "resolve_node r h nd = ok (h1, nd')" and wf1: "well_formed gt h1"
    and ev1: "evolves h h1" and nd': "list_all (\<lambda>x. x < length h) (node_types nd')" by blast
  from nd' evolves_length [OF ev1]
  have t: "list_all (\<lambda>x. x < length h1) (node_types nd')" by simp
  have "well_formed gt (set_complex h1 a (\<lambda>c. c\<lparr>c_element := Some nd'\<rparr>)) \<and>
      evolves h (set_complex h1 a (\<lambda>c. c\<lparr>c_element := Some nd'\<rparr>))"
    using assms(4,5) wf1 ev1
    by (rule field_step) (simp_all add: references_element t)
  with assms(4,5) nd call show ?thesis
    by (auto simp: resolve_content_def with_complex_def)
qed

lemma resolve_attributes_returns:
  assumes "resolves_all gt r k" and "well_formed gt h" and "pending h \<le> k"
    and "a < length h" and "h ! a = ComplexType c"
  shows "\<exists>h'. resolve_attributes r h a = ok h' \<and> well_formed gt h' \<and> evolves h h'"
proof -
  from references_parts [OF well_formed_references [OF assms(2,4,5)]]
  have "list_all (\<lambda>x. x < length h) (map attr_type (c_attributes c))" by simp
  from thread_returns [where f = "resolve_attribute r" and ty = attr_type and gt = gt and k = k,
      OF resolve_attribute_returns [OF assms(1)] assms(2,3) this]
  obtain h1 ats where
    call: "thread (resolve_attribute r) h (c_attributes c) = ok (h1, ats)"
    and wf1: "well_formed gt h1" and ev1: "evolves h h1"
    and ats: "list_all (\<lambda>x. x < length h) (map attr_type ats)" by blast
  from ats evolves_length [OF ev1]
  have t: "list_all (\<lambda>x. x < length h1) (map attr_type ats)" by simp
  have "well_formed gt (set_complex h1 a (\<lambda>c. c\<lparr>c_attributes := ats\<rparr>)) \<and>
      evolves h (set_complex h1 a (\<lambda>c. c\<lparr>c_attributes := ats\<rparr>))"
    using assms(4,5) wf1 ev1
    by (rule field_step) (simp_all add: references_attributes t)
  with assms(4,5) call show ?thesis
    by (auto simp: resolve_attributes_def with_complex_def)
qed

lemma resolve_complex_returns:
  assumes "resolves_all gt r k" and "well_formed gt h" and "a < length h"
    and "h ! a = ComplexType c" and "c_resolved c \<or> pending h \<le> Suc k"
  shows "\<exists>h'. resolve_complex r h a = ok (h', a) \<and> well_formed gt h' \<and> evolves h h'"
proof (cases "c_resolved c")
  case True
  with assms(2,3,4) show ?thesis
    by (auto simp: resolve_complex_def with_complex_def intro: evolves_refl)
next
  case False
  let ?h0 = "set_complex h a (\<lambda>c. c\<lparr>c_resolved := True\<rparr>)"
  have wf0: "well_formed gt ?h0" and ev0: "evolves h ?h0"
    using set_complex_step [where f = "\<lambda>c. c\<lparr>c_resolved := True\<rparr>", OF assms(2,3,4)]
      well_formed_references [OF assms(2,3,4)]
    by simp_all
  have "?h0 = h[a := ComplexType (c\<lparr>c_resolved := True\<rparr>)]"
    using assms(4) by (simp add: set_complex_def)
  with pending_mark [OF assms(3,4) False] assms(5) False
  have p0: "pending ?h0 \<le> k" by simp
  have a0: "a < length ?h0" using assms(3) evolves_length [OF ev0] by simp
  from evolves_complex [OF ev0 assms(3,4)] obtain c0 where c0: "?h0 ! a = ComplexType c0"
    by blast
  from resolve_extension_returns [OF assms(1) wf0 p0 a0 c0] obtain h1 where
    s1: "resolve_extension r ?h0 a = ok h1" and wf1: "well_formed gt h1"
    and ev1: "evolves ?h0 h1" by blast
  have p1: "pending h1 \<le> k" using evolves_pending [OF ev1] p0 by simp
  have a1: "a < length h1" using a0 evolves_length [OF ev1] by simp
  from evolves_complex [OF ev1 a0 c0] obtain c1 where c1: "h1 ! a = ComplexType c1" by blast
  from resolve_restriction_returns [OF assms(1) wf1 p1 a1 c1] obtain h2 where
    s2: "resolve_restriction r h1 a = ok h2" and wf2: "well_formed gt h2"
    and ev2: "evolves h1 h2" by blast
  have p2: "pending h2 \<le> k" using evolves_pending [OF ev2] p1 by simp
  have a2: "a < length h2" using a1 evolves_length [OF ev2] by simp
  from evolves_complex [OF ev2 a1 c1] obtain c2 where c2: "h2 ! a = ComplexType c2" by blast
  from resolve_content_returns [OF assms(1) wf2 p2 a2 c2] obtain h3 where
    s3: "resolve_content r h2 a = ok h3" and wf3: "well_formed gt h3"
    and ev3: "evolves h2 h3" by blast
  have p3: "pending h3 \<le> k" using evolves_pending [OF ev3] p2 by simp
  have a3: "a < length h3" using a2 evolves_length [OF ev3] by simp
  from evolves_complex [OF ev3 a2 c2] obtain c3 where c3: "h3 ! a = ComplexType c3" by blast
  from resolve_attributes_returns [OF assms(1) wf3 p3 a3 c3] obtain h4 where
    s4: "resolve_attributes r h3 a = ok h4" and wf4: "well_formed gt h4"
    and ev4: "evolves h3 h4" by blast
  have run: "resolve_complex r h a = ok (h4, a)"
    using assms(3,4) False by (simp add: resolve_complex_def with_complex_def s1 s2 s3 s4)
  have "evolves h h4"
    using ev0 ev1 ev2 ev3 ev4 by (blast intro: evolves_trans)
  with run wf4 show ?thesis by blast
qed

lemma resolve_returns:
  "well_formed gt h \<Longrightarrow> x < length h \<Longrightarrow>
   2 * pending h + (if concrete (h ! x) then 1 else 2) \<le> n \<Longrightarrow>
     \<exists>h'. resolve n gt h x = ok (h', target gt h x) \<and> well_formed gt h' \<and> evolves h h'"
proof (induction n arbitrary: h x)
  case 0
  then show ?case by (simp split: if_splits)
next
  case (Suc n)
  have all: "resolves_all gt (resolve n gt) k" if "2 * k + 2 \<le> n" for k
    unfolding resolves_all_def
  proof (intro allI impI)
    fix h x
    assume *: "well_formed gt h \<and> x < length h \<and> pending h \<le> k"
    with that have "2 * pending h + (if concrete (h ! x) then 1 else 2) \<le> n" by simp
    with * Suc.IH show "\<exists>h'. resolve n gt h x = ok (h', target gt h x) \<and>
        well_formed gt h' \<and> evolves h h'" by blast
  qed
  note wfo = well_formed_nth [OF Suc.prems(1,2)]
  show ?case
  proof (cases "h ! x")
    case (SimpleType s)
    with Suc.prems show ?thesis
      by (auto simp: target_def intro: evolves_refl)
  next
    case (UnresolvedType q)
    with wfo obtain t where t: "gt q = Some t" "t < length h" "concrete (h ! t)"
      by (auto simp: well_formed_object_def split: option.splits)
    from UnresolvedType Suc.prems(3) t(3)
    have "2 * pending h + (if concrete (h ! t) then 1 else 2) \<le> n"
      by (simp add: concrete_def)
    from Suc.IH [OF Suc.prems(1) t(2) this] obtain h' where
      "resolve n gt h t = ok (h', target gt h t)" "well_formed gt h'" "evolves h h'" by blast
    moreover have "target gt h t = t" using t(3) by (rule target_concrete)
    moreover have "target gt h x = t" using UnresolvedType t(1) by (simp add: target_def)
    ultimately show ?thesis
      using UnresolvedType t(1) Suc.prems(2) by auto
  next
    case (ComplexType c)
    have tgt: "target gt h x = x" using ComplexType by (simp add: target_def)
    have "\<exists>h'. resolve_complex (resolve n gt) h x = ok (h', x) \<and> well_formed gt h' \<and>
        evolves h h'"
    proof (cases "c_resolved c")
      case True
      with Suc.prems(1,2) ComplexType show ?thesis
        by (auto simp: resolve_complex_def with_complex_def intro: evolves_refl)
    next
      case False
      from pending_positive [OF Suc.prems(2) ComplexType False]
      obtain k where k: "pending h = Suc k" by (cases "pending h") auto
      with Suc.prems(3) ComplexType have "2 * k + 2 \<le> n" by (simp add: concrete_def)
      from resolve_complex_returns [OF all [OF this] Suc.prems(1,2) ComplexType] k
      show ?thesis by simp
    qed
    with Suc.prems(2) ComplexType tgt show ?thesis by simp
  qed (use wfo in \<open>simp_all add: well_formed_object_def\<close>)
qed

subsection \<open>Dictionaries as association lists\<close>

lemma update_fresh:
  "k \<notin> fst ` set al \<Longrightarrow> AList.update k v al = al @ [(k, v)]"
  by (induction al) auto

lemma fold_update_keys:
  "fst ` set (fold (\<lambda>(k, v). AList.update k (d k v)) xs kw) = fst ` set kw \<union> fst ` set xs"
proof (induction xs arbitrary: kw)
  case Nil
  then show ?case by simp
next
  case (Cons x xs)
  obtain k v where x: "x = (k, v)" by (cases x)
  have "fst ` set (AList.update k (d k v) kw) = insert k (fst ` set kw)"
    using dom_update [of k "d k v" kw] by simp
  with Cons.IH [of "AList.update k (d k v) kw"] show ?case unfolding x by auto
qed

lemma fold_update_distinct:
  "distinct (map fst xs) \<Longrightarrow> fst ` set xs \<inter> fst ` set kw = {} \<Longrightarrow>
     fold (\<lambda>(k, v). AList.update k (d k v)) xs kw = kw @ map (\<lambda>(k, v). (k, d k v)) xs"
proof (induction xs arbitrary: kw)
  case Nil
  then show ?case by simp
next
  case (Cons x xs)
  obtain k v where x: "x = (k, v)" by (cases x)
  from Cons.prems have fresh: "k \<notin> fst ` set kw" and d: "distinct (map fst xs)"
    and k: "k \<notin> fst ` set xs" and disj: "fst ` set xs \<inter> fst ` set kw = {}"
    unfolding x by auto
  have step: "AList.update k (d k v) kw = kw @ [(k, d k v)]"
    using fresh by (rule update_fresh)
  have "fst ` set xs \<inter> fst ` set (kw @ [(k, d k v)]) = {}"
    using k disj by auto
  from Cons.IH [OF d this] show ?case unfolding x by (simp add: step)
qed

lemma attr_map_of_fold_add:
  "fold (\<lambda>attr m. m(attr_name attr \<mapsto> attr)) attrs m0 =
     m0 ++ map_of (rev (map (\<lambda>at. (attr_name at, at)) attrs))"
  by (induction attrs arbitrary: m0) simp_all

lemma attr_map_of_rev:
  "attr_map_of attrs = map_of (rev (map (\<lambda>at. (attr_name at, at)) attrs))"
  by (simp add: attr_map_of_def attr_map_of_fold_add)

lemma parse_attributes_fold:
  assumes "\<forall>(k, v) \<in> set xs. \<forall>at. am k = Some at \<longrightarrow> ap at v = Inr (dec k v)"
  shows "parse_attributes ap am xs kw =
     Inr (fold (\<lambda>(k, v). AList.update k (dec k v)) (filter (\<lambda>(k, v). am k \<noteq> None) xs) kw)"
  using assms by (induction xs arbitrary: kw) (auto split: option.splits)

lemma parse_elements_fold:
  assumes "\<forall>(name, nd) \<in> set nested. pxe nd children name = Inr (f name nd)"
  shows "parse_elements pxe children nested kw =
     Inr (fold (\<lambda>(k, v). AList.update k v) (concat (map (\<lambda>(name, nd). f name nd) nested)) kw)"
  using assms by (induction nested arbitrary: kw) (auto simp: dict_update_def)

lemma declared_filter:
  "filter (\<lambda>(k, v). attr_map_of attrs k \<noteq> None) xs =
     filter (\<lambda>(k, v). k \<in> attr_name ` set attrs) xs"
  by (simp add: attr_map_of_None)

lemma attribute_phase:
  assumes "\<forall>(k, v) \<in> set xs. \<forall>at.
      map_of (rev (map (\<lambda>at. (attr_name at, at)) attrs)) k = Some at \<longrightarrow>
        ap at v = Inr (dec k v)"
  shows "parse_attributes ap (attr_map_of attrs) xs [] =
     Inr (fold (\<lambda>(k, v). AList.update k (dec k v))
            (filter (\<lambda>(k, v). k \<in> attr_name ` set attrs) xs) [])"
proof -
  have "\<forall>(k, v) \<in> set xs. \<forall>at. attr_map_of attrs k = Some at \<longrightarrow> ap at v = Inr (dec k v)"
    using assms unfolding attr_map_of_rev .
  then have "parse_attributes ap (attr_map_of attrs) xs [] =
     Inr (fold (\<lambda>(k, v). AList.update k (dec k v))
            (filter (\<lambda>(k, v). attr_map_of attrs k \<noteq> None) xs) [])"
    by (rule parse_attributes_fold)
  then show ?thesis unfolding declared_filter .
qed

lemma parse_compound:
  assumes "getchildren x \<noteq> [] \<or> attrib x \<noteq> []"
    and "attributes n h a = ok attrs" and "elements_nested n g h a = ok nested"
    and "parse_attributes ap (attr_map_of attrs) (attrib x) [] = Inr kw"
    and "\<forall>(name, nd) \<in> set nested. pxe nd (getchildren x) name = Inr (f name nd)"
    and "cv a (fold (\<lambda>(k, v). AList.update k v)
                 (concat (map (\<lambda>(name, nd). f name nd) nested)) kw) = Inr v"
  shows "parse_xmlelement n g ap pxe cv h a x = ok (Some v)"
proof -
  have "parse_elements pxe (getchildren x) nested kw =
      Inr (fold (\<lambda>(k, v). AList.update k v)
             (concat (map (\<lambda>(name, nd). f name nd) nested)) kw)"
    using assms(5) by (rule parse_elements_fold)
  with assms(1) show ?thesis
    by (auto simp: parse_xmlelement_def assms(2,3,4,6))
qed

subsection \<open>The parts of a signature\<close>

lemma self_reference_filter:
  "filter (\<lambda>nd. \<not> self_reference a nd) xs =
     filter (\<lambda>nd. case nd of Element e \<Rightarrow> elem_type e \<noteq> a | Group ms \<Rightarrow> True) xs"
  by (rule filter_cong) (auto simp: self_reference_def split: node.splits)

lemma signature_computed:
  assumes "elements_nested n g h a = ok nested" and "attributes n h a = ok attrs"
    and "\<forall>nd. node_signature nd = Inr (ns nd)"
    and "\<forall>attr. attribute_signature attr = Inr (asig attr)"
  shows "signature n g node_signature attribute_signature h a =
     ok (case map ns (filter (\<lambda>nd. case nd of Element e \<Rightarrow> elem_type e \<noteq> a
                                           | Group ms \<Rightarrow> True) (map snd nested)) @
               map asig attrs of
           [] \<Rightarrow> []
         | p # ps \<Rightarrow> p @ concat (map (\<lambda>q. '', '' @ q) ps))"
proof -
  have parts: "\<And>xs. mapM node_signature xs = Inr (map ns xs)"
    using assms(3) by (intro mapM_all_Inr) simp
  have attr_parts: "\<And>xs. mapM attribute_signature xs = Inr (map asig xs)"
    using assms(4) by (intro mapM_all_Inr) simp
  have "signature n g node_signature attribute_signature h a =
      ok (join '', '' (map ns (filter (\<lambda>nd. \<not> self_reference a nd) (map snd nested)) @
                       map asig attrs))"
    unfolding signature_def assms(1,2) parts attr_parts by (simp add: ok_def)
  then show ?thesis
    unfolding self_reference_filter join_case [of "'', ''"] .
qed

subsection \<open>Keys and values of the serialized mapping\<close>















section \<open>Properties\<close>

subsection \<open>Resolution\<close>

text \<open>
  C1. Resolving a ComplexType whose flag is set returns the same object and leaves the
  graph as it is, without a nested call (whatever the resolver for nested calls would
  do). When resolving a ComplexType returns, it returns the same object with its flag
  set, so resolving it again, at any depth bound, returns the same object and the same
  graph. And on every graph of simple and complex types with references by name,
  whatever cycles the extensions and the element and attribute types form, resolving a
  ComplexType returns, within a depth of twice the number of unresolved types plus one.
\<close>

theorem resolve_idempotent:
  assumes "a < length h" and "h ! a = ComplexType c"
  shows
    "(c_resolved c \<longrightarrow>
        resolve_complex r h a = ok (h, a) \<and> resolve (Suc m) gt h a = ok (h, a)) \<and>
     (resolve n gt h a = ok (h', a') \<longrightarrow>
        a' = a \<and> resolved_at h' a \<and> resolve (Suc m) gt h' a' = ok (h', a')) \<and>
     (well_formed gt h \<longrightarrow>
        (\<exists>h''. resolve (2 * pending h + 1) gt h a = ok (h'', a) \<and>
               resolve (Suc m) gt h'' a = ok (h'', a)))"
proof (intro conjI impI)
  assume "c_resolved c"
  with assms show "resolve_complex r h a = ok (h, a)"
    and "resolve (Suc m) gt h a = ok (h, a)"
    by (simp_all add: resolve_complex_def with_complex_def)
next
  assume run: "resolve n gt h a = ok (h', a')"
  then obtain k where n: "n = Suc k" by (cases n) auto
  from run assms have rc: "resolve_complex (resolve k gt) h a = ok (h', a')"
    unfolding n by simp
  from resolve_complex_keeps(1,2) [OF resolve_keeps rc]
  show "a' = a" and res: "resolved_at h' a" by simp_all
  from resolve_resolved [OF res] \<open>a' = a\<close>
  show "resolve (Suc m) gt h' a' = ok (h', a')" by simp
next
  assume wf: "well_formed gt h"
  have "2 * pending h + (if concrete (h ! a) then 1 else 2) \<le> 2 * pending h + 1"
    using assms(2) by (simp add: concrete_def)
  from resolve_returns [OF wf assms(1) this] assms(2) obtain h'' where
    run: "resolve (2 * pending h + 1) gt h a = ok (h'', a)"
    by (auto simp: target_def)
  then obtain k where k: "2 * pending h + 1 = Suc k" by simp
  from run assms have rc: "resolve_complex (resolve k gt) h a = ok (h'', a)"
    unfolding k by simp
  from resolve_resolved [OF resolve_complex_keeps(2) [OF resolve_keeps rc]] run
  show "\<exists>h''. resolve (2 * pending h + 1) gt h a = ok (h'', a) \<and>
      resolve (Suc m) gt h'' a = ok (h'', a)" by blast
qed

theorem resolve_idempotent_witness:
  "2 < length cyclic_graph \<and> cyclic_graph ! 2 = ComplexType node_type \<and>
   well_formed example_registry cyclic_graph \<and> pending cyclic_graph = 1 \<and>
   resolve 3 example_registry cyclic_graph 2 = ok (resolved_cyclic_graph, 2) \<and>
   resolved_cyclic_graph ! 2 = ComplexType resolved_node_type \<and>
   c_resolved resolved_node_type \<and>
   resolve 1 example_registry resolved_cyclic_graph 2 = ok (resolved_cyclic_graph, 2)"
  using resolve_idempotent [of 2 cyclic_graph node_type "resolve 0 example_registry" 0
      example_registry 3 resolved_cyclic_graph 2]
    resolve_idempotent [of 2 resolved_cyclic_graph resolved_node_type
      "resolve 0 example_registry" 0 example_registry 1 resolved_cyclic_graph 2]
  by (simp add: example_defs graph_defs resolve_defs eval_nat_numeral ok_def
      resolved_cyclic_graph_def resolved_node_type_def well_formed_def
      well_formed_object_def references_def concrete_def pending_def)

subsection \<open>Custom types\<close>

text \<open>
  C2, as stated, at the custom type \<open>Alias\<close> (address 6 of the example), whose base is
  the reference \<open>tns:Base\<close> to the ComplexType \<open>Base\<close>: the reference is resolved first
  and a new type is appended at address 8, but it does not carry the structure of the
  base: \<open>Base\<close> has the attribute \<open>lang\<close> and a content node, the new type has neither.
\<close>

theorem custom_type_counterexample:
  "(case resolve 4 example_registry custom_graph 6 of
      Some (Inr (h', t)) \<Rightarrow>
        t = 8 \<and>
        h' ! t = ComplexType (complex_init ''Alias'' None None None None) \<and>
        attributes 2 h' 1 = ok [\<lparr>attr_name = ''lang'', attr_type = 0\<rparr>] \<and>
        attributes 2 h' t = ok [] \<and>
        elements_nested 2 value_name h' 1 =
          ok [(''_value_1'', Group [Element \<lparr>elem_name = ''id'', elem_type = 0\<rparr>])] \<and>
        elements_nested 2 value_name h' t = ok []
    | _ \<Rightarrow> False)"
  by (simp add: example_defs graph_defs resolve_defs eval_nat_numeral ok_def)

text \<open>
  C2, amended. Resolving a custom type resolves its base first when the base is an
  unresolved reference by name, and then returns a new object at a fresh address, an
  instance of a new class of the given name derived from the class of the base and
  constructed without arguments. For a SimpleType base the new type has the behaviour of
  the base's class under the new class name, and like the base no effective attributes.
  For a ComplexType base the new type is an empty ComplexType: no content node and no
  attributes, whatever the base has.
\<close>

theorem custom_type_resolve:
  assumes "a < length h" and "h ! a = UnresolvedCustomType name b" and "b < length h"
    and "(case h ! b of UnresolvedType q \<Rightarrow> resolve n gt h b | _ \<Rightarrow> ok (h, b)) = ok (h1, base)"
    and "base < length h1"
  shows
    "(h1 ! base = SimpleType s \<longrightarrow>
        resolve (Suc n) gt h a = ok (h1 @ [SimpleType (s\<lparr>s_class := name\<rparr>)], length h1) \<and>
        attributes (Suc m) (h1 @ [SimpleType (s\<lparr>s_class := name\<rparr>)]) (length h1) = ok [] \<and>
        attributes (Suc m) (h1 @ [SimpleType (s\<lparr>s_class := name\<rparr>)]) base = ok []) \<and>
     (h1 ! base = ComplexType c \<longrightarrow>
        resolve (Suc n) gt h a =
          ok (h1 @ [ComplexType (complex_init name None None None None)], length h1) \<and>
        attributes (Suc m) (h1 @ [ComplexType (complex_init name None None None None)])
          (length h1) = ok [] \<and>
        elements_nested (Suc m) g (h1 @ [ComplexType (complex_init name None None None None)])
          (length h1) = ok []) \<and>
     length h1 \<noteq> base"
proof -
  have run: "resolve (Suc n) gt h a =
      (case subclass_instance name (h1 ! base) of
         Inl e \<Rightarrow> raise e
       | Inr obj \<Rightarrow> ok (h1 @ [obj], length h1))"
    using assms by (simp add: resolve_custom_def)
  show ?thesis
    unfolding run using assms(5)
    by (auto simp: nth_append complex_init_def own_content_def)
qed

theorem custom_type_resolve_witness:
  "7 < length custom_graph \<and> custom_graph ! 7 = UnresolvedCustomType ''Token'' 0 \<and>
   custom_graph ! 0 = SimpleType string_type \<and>
   resolve 1 example_registry custom_graph 7 =
     ok (custom_graph @ [SimpleType \<lparr>s_class = ''Token'', s_name = Some ''xsd:string''\<rparr>], 8) \<and>
   custom_graph ! 6 = UnresolvedCustomType ''Alias'' 5 \<and>
   custom_graph ! 5 = UnresolvedType ''tns:Base'' \<and>
   resolve 3 example_registry custom_graph 5 =
     ok (custom_graph[1 := ComplexType (base_type\<lparr>c_resolved := True\<rparr>)], 1) \<and>
   resolve 4 example_registry custom_graph 6 =
     ok (custom_graph[1 := ComplexType (base_type\<lparr>c_resolved := True\<rparr>)] @
           [ComplexType (complex_init ''Alias'' None None None None)], 8)"
  using custom_type_resolve [of 7 custom_graph "''Token''" 0 0 example_registry custom_graph 0
      string_type 0 base_type value_name]
    custom_type_resolve [of 6 custom_graph "''Alias''" 5 3 example_registry
      "custom_graph[1 := ComplexType (base_type\<lparr>c_resolved := True\<rparr>)]" 1
      string_type 0 "base_type\<lparr>c_resolved := True\<rparr>" value_name]
  by (simp add: example_defs graph_defs resolve_defs eval_nat_numeral ok_def)

subsection \<open>Parsing\<close>

text \<open>
  C3, as stated, at two ComplexTypes and an XML element with two attributes and a child.
  \<open>Loop\<close> (address 4 of the example graph) extends itself: the parse reads the effective
  attributes, which follow the extension reference without end, so no depth bound lets it
  return. \<open>Tokens\<close> (address 2 of its graph) extends a list type, which has no content
  nodes to read: the parse raises AttributeError.
\<close>

theorem parse_self_extension_counterexample:
  "(\<forall>n. parse_xmlelement n value_name example_attr_parse example_parse_xmlelements
          example_compound_value example_graph 4 example_element = None) \<and>
   (\<forall>n. parse_xmlelement (Suc (Suc n)) value_name example_attr_parse
          example_parse_xmlelements example_compound_value tokens_graph 2 example_element =
        raise AttributeError)"
proof (intro conjI allI)
  fix n
  have "attributes n example_graph 4 = None"
    using self_extension_diverges [of 4 example_graph loop_type n value_name]
    by (simp add: example_graph_def loop_type_def complex_init_def)
  then show "parse_xmlelement n value_name example_attr_parse example_parse_xmlelements
      example_compound_value example_graph 4 example_element = None"
    by (simp add: parse_xmlelement_def example_element_def)
next
  fix n
  have "attributes (Suc (Suc n)) tokens_graph 2 = ok []"
    and "elements_nested (Suc (Suc n)) value_name tokens_graph 2 = raise AttributeError"
    by (simp_all add: tokens_graph_def tokens_type_def complex_init_def)
  then show "parse_xmlelement (Suc (Suc n)) value_name example_attr_parse
      example_parse_xmlelements example_compound_value tokens_graph 2 example_element =
        raise AttributeError"
    by (simp add: parse_xmlelement_def example_element_def attr_map_of_def)
qed

text \<open>
  C3, amended. Parsing an XML element without attributes and without children through a
  ComplexType gives the nil value, whatever the type. For a ComplexType whose effective
  attributes and effective content nodes are computed, and an element with an attribute
  or a child, let the decoder of every declared attribute that the element carries return
  (\<open>dec k v\<close> for the text \<open>v\<close> of the attribute named \<open>k\<close>; a name declared twice is
  decoded by the later declaration), let every effective content node return its fields
  from the full list of children and its name (\<open>node_fields name nd\<close>), and let the
  construction of the value return. Then the parse returns the value constructed from
  these fields: the decoded texts of the declared attributes, assigned under their names
  in the order of the XML, then the fields of the content nodes, assigned node after node
  in the order of the nodes; an assignment to a name that has a field replaces its value.
\<close>

theorem parse_nil_or_compound:
  "(getchildren x = [] \<and> attrib x = [] \<longrightarrow>
      parse_xmlelement n g ap pxe cv h a x = ok None) \<and>
   ((getchildren x \<noteq> [] \<or> attrib x \<noteq> []) \<and>
    attributes n h a = ok attrs \<and> elements_nested n g h a = ok nested \<and>
    (\<forall>(k, v) \<in> set (attrib x). \<forall>at.
       map_of (rev (map (\<lambda>at. (attr_name at, at)) attrs)) k = Some at \<longrightarrow>
         ap at v = Inr (dec k v)) \<and>
    (\<forall>(name, nd) \<in> set nested. pxe nd (getchildren x) name = Inr (node_fields name nd)) \<and>
    cv a (fold (\<lambda>(k, v). AList.update k v)
            (concat (map (\<lambda>(name, nd). node_fields name nd) nested))
            (fold (\<lambda>(k, v). AList.update k (dec k v))
               (filter (\<lambda>(k, v). k \<in> attr_name ` set attrs) (attrib x)) [])) = Inr v \<longrightarrow>
      parse_xmlelement n g ap pxe cv h a x = ok (Some v))"
proof (intro conjI impI)
  assume "getchildren x = [] \<and> attrib x = []"
  then show "parse_xmlelement n g ap pxe cv h a x = ok None"
    by (simp add: parse_xmlelement_def)
next
  assume *: "(getchildren x \<noteq> [] \<or> attrib x \<noteq> []) \<and>
    attributes n h a = ok attrs \<and> elements_nested n g h a = ok nested \<and>
    (\<forall>(k, v) \<in> set (attrib x). \<forall>at.
       map_of (rev (map (\<lambda>at. (attr_name at, at)) attrs)) k = Some at \<longrightarrow>
         ap at v = Inr (dec k v)) \<and>
    (\<forall>(name, nd) \<in> set nested. pxe nd (getchildren x) name = Inr (node_fields name nd)) \<and>
    cv a (fold (\<lambda>(k, v). AList.update k v)
            (concat (map (\<lambda>(name, nd). node_fields name nd) nested))
            (fold (\<lambda>(k, v). AList.update k (dec k v))
               (filter (\<lambda>(k, v). k \<in> attr_name ` set attrs) (attrib x)) [])) = Inr v"
  then have some: "getchildren x \<noteq> [] \<or> attrib x \<noteq> []"
    and attrs: "attributes n h a = ok attrs"
    and nested: "elements_nested n g h a = ok nested"
    and dec: "\<forall>(k, v) \<in> set (attrib x). \<forall>at.
       map_of (rev (map (\<lambda>at. (attr_name at, at)) attrs)) k = Some at \<longrightarrow>
         ap at v = Inr (dec k v)"
    and nodes: "\<forall>(name, nd) \<in> set nested.
       pxe nd (getchildren x) name = Inr (node_fields name nd)"
    and cv: "cv a (fold (\<lambda>(k, v). AList.update k v)
            (concat (map (\<lambda>(name, nd). node_fields name nd) nested))
            (fold (\<lambda>(k, v). AList.update k (dec k v))
               (filter (\<lambda>(k, v). k \<in> attr_name ` set attrs) (attrib x)) [])) = Inr v"
    by blast+
  have phase: "parse_attributes ap (attr_map_of attrs) (attrib x) [] =
      Inr (fold (\<lambda>(k, v). AList.update k (dec k v))
             (filter (\<lambda>(k, v). k \<in> attr_name ` set attrs) (attrib x)) [])"
    using dec by (rule attribute_phase)
  from some attrs nested phase nodes cv
  show "parse_xmlelement n g ap pxe cv h a x = ok (Some v)"
    by (rule parse_compound [where f = node_fields])
qed

theorem parse_nil_or_compound_witness:
  "parse_xmlelement 2 value_name example_attr_parse example_parse_xmlelements
     example_compound_value example_graph 1 (XML ''item'' [] [] None) = ok None \<and>
   attributes 2 example_graph 1 = ok [\<lparr>attr_name = ''lang'', attr_type = 0\<rparr>] \<and>
   elements_nested 2 value_name example_graph 1 =
     ok [(''_value_1'', Group [Element \<lparr>elem_name = ''id'', elem_type = 0\<rparr>])] \<and>
   attrib example_element = [(''lang'', ''en''), (''bogus'', ''1'')] \<and>
   example_attr_parse \<lparr>attr_name = ''lang'', attr_type = 0\<rparr> ''en'' = Inr ''en'' \<and>
   example_parse_xmlelements (Group [Element \<lparr>elem_name = ''id'', elem_type = 0\<rparr>])
     (getchildren example_element) ''_value_1'' = Inr [(''id'', ''42'')] \<and>
   example_compound_value 1 [(''lang'', ''en''), (''id'', ''42'')] =
     Inr (1, [(''lang'', ''en''), (''id'', ''42'')]) \<and>
   parse_xmlelement 2 value_name example_attr_parse example_parse_xmlelements
     example_compound_value example_graph 1 example_element =
       ok (Some (1, [(''lang'', ''en''), (''id'', ''42'')]))"
proof -
  let ?attrs = "[\<lparr>attr_name = ''lang'', attr_type = 0\<rparr>]"
  let ?nested = "[(''_value_1'', Group [Element \<lparr>elem_name = ''id'', elem_type = 0\<rparr>])]"
  have attrs: "attributes 2 example_graph 1 = ok ?attrs"
    and nested: "elements_nested 2 value_name example_graph 1 = ok ?nested"
    by (simp_all add: example_defs eval_nat_numeral)
  have x: "attrib example_element = [(''lang'', ''en''), (''bogus'', ''1'')]"
    by (simp add: example_element_def)
  have decoded: "example_attr_parse \<lparr>attr_name = ''lang'', attr_type = 0\<rparr> ''en'' = Inr ''en''"
    by (simp add: example_attr_parse_def)
  have content: "example_parse_xmlelements
      (Group [Element \<lparr>elem_name = ''id'', elem_type = 0\<rparr>])
      (getchildren example_element) ''_value_1'' = Inr [(''id'', ''42'')]"
    by (simp add: example_parse_xmlelements_def example_element_def)
  have built: "example_compound_value 1 [(''lang'', ''en''), (''id'', ''42'')] =
      Inr (1, [(''lang'', ''en''), (''id'', ''42'')])"
    by (simp add: example_compound_value_def)
  have nil: "parse_xmlelement 2 value_name example_attr_parse example_parse_xmlelements
      example_compound_value example_graph 1 (XML ''item'' [] [] None) = ok None"
    using parse_nil_or_compound [where x = "XML ''item'' [] [] None" and n = 2 and g = value_name
        and ap = example_attr_parse and pxe = example_parse_xmlelements
        and cv = example_compound_value and h = example_graph and a = 1]
    by simp
  have parsed: "parse_xmlelement 2 value_name example_attr_parse example_parse_xmlelements
      example_compound_value example_graph 1 example_element =
        ok (Some (1, [(''lang'', ''en''), (''id'', ''42'')]))"
    using parse_nil_or_compound [where x = example_element and n = 2 and g = value_name
        and ap = example_attr_parse and pxe = example_parse_xmlelements
        and cv = example_compound_value and h = example_graph and a = 1
        and attrs = ?attrs and nested = ?nested and dec = "\<lambda>k v. v"
        and node_fields = "\<lambda>name nd. [(''id'', ''42'')]"
        and v = "(1, [(''lang'', ''en''), (''id'', ''42'')])"]
      attrs nested x content
    by (simp add: example_attr_parse_def example_compound_value_def)
  show ?thesis
    by (intro conjI; fact nil attrs nested x decoded content built parsed)
qed

text \<open>
  C10. In ComplexType parsing, let the XML element carry an attribute whose name is not
  the name of an effective attribute of the type, and let the decoders of the declared
  attributes return on the texts they are given (\<open>dec k v\<close> for the text \<open>v\<close> of the
  attribute named \<open>k\<close>; a name declared twice is decoded by the later declaration).
  Nothing is asked of a decoder on the undeclared attribute: it is not decoded and raises
  no error. The attribute phase collects exactly the declared attributes that the element
  carries: its fields are the decoded texts of these attributes, assigned in the order of
  the XML (for an attribute mapping, whose keys are distinct, one field for each, in that
  order), their names are the declared names present in the XML, and the undeclared name
  is not among them. The value returned is constructed from these fields updated with the
  fields of the content nodes, also when the undeclared attribute is the only thing the
  element carries (the fields of the attribute phase are none then, and the result is a
  value, not the nil object). As long as an attribute or a child is left, the parse is the
  parse of the element without the undeclared attribute.
\<close>

theorem undeclared_attribute_skipped:
  assumes "attributes n h a = ok attrs"
    and "key \<notin> attr_name ` set attrs"
    and "attrib x = before @ (key, val) # after"
    and "\<forall>(k, v) \<in> set (attrib x). \<forall>at.
           map_of (rev (map (\<lambda>at. (attr_name at, at)) attrs)) k = Some at \<longrightarrow>
             ap at v = Inr (dec k v)"
    and "declared = filter (\<lambda>(k, v). k \<in> attr_name ` set attrs) (attrib x)"
    and "attr_fields = fold (\<lambda>(k, v). AList.update k (dec k v)) declared []"
  shows
    "parse_attributes ap (attr_map_of attrs) (attrib x) [] = Inr attr_fields \<and>
     declared = filter (\<lambda>(k, v). k \<in> attr_name ` set attrs) (before @ after) \<and>
     key \<notin> fst ` set attr_fields \<and>
     fst ` set attr_fields = attr_name ` set attrs \<inter> fst ` set (attrib x) \<and>
     (distinct (map fst (attrib x)) \<longrightarrow>
        attr_fields = map (\<lambda>(k, v). (k, dec k v)) declared) \<and>
     (elements_nested n g h a = ok nested \<and>
      (\<forall>(name, nd) \<in> set nested. pxe nd (getchildren x) name = Inr (node_fields name nd)) \<and>
      cv a (fold (\<lambda>(k, v). AList.update k v)
              (concat (map (\<lambda>(name, nd). node_fields name nd) nested)) attr_fields) = Inr v \<longrightarrow>
        parse_xmlelement n g ap pxe cv h a x = ok (Some v)) \<and>
     (getchildren x \<noteq> [] \<or> before @ after \<noteq> [] \<longrightarrow>
        parse_xmlelement n g ap pxe cv h a x =
          parse_xmlelement n g ap pxe cv h a
            (XML (tag x) (before @ after) (getchildren x) (xml_text x)))"
proof (intro conjI impI)
  show phase: "parse_attributes ap (attr_map_of attrs) (attrib x) [] = Inr attr_fields"
    unfolding assms(5,6) using assms(4) by (rule attribute_phase)
  show "declared = filter (\<lambda>(k, v). k \<in> attr_name ` set attrs) (before @ after)"
    unfolding assms(5) assms(3) using assms(2) by simp
  have keys: "fst ` set attr_fields = fst ` set declared"
    unfolding assms(6) by (simp add: fold_update_keys)
  have declared: "fst ` set declared = attr_name ` set attrs \<inter> fst ` set (attrib x)"
    unfolding assms(5) by force
  from keys declared
  show "fst ` set attr_fields = attr_name ` set attrs \<inter> fst ` set (attrib x)" by simp
  with assms(2) show "key \<notin> fst ` set attr_fields" by simp
next
  assume "distinct (map fst (attrib x))"
  then have "distinct (map fst declared)"
    unfolding assms(5) by (rule distinct_map_filter)
  from fold_update_distinct [OF this, of "[]" dec]
  show "attr_fields = map (\<lambda>(k, v). (k, dec k v)) declared"
    unfolding assms(6) by simp
next
  assume *: "elements_nested n g h a = ok nested \<and>
      (\<forall>(name, nd) \<in> set nested. pxe nd (getchildren x) name = Inr (node_fields name nd)) \<and>
      cv a (fold (\<lambda>(k, v). AList.update k v)
              (concat (map (\<lambda>(name, nd). node_fields name nd) nested)) attr_fields) = Inr v"
  have phase: "parse_attributes ap (attr_map_of attrs) (attrib x) [] = Inr attr_fields"
    unfolding assms(5,6) using assms(4) by (rule attribute_phase)
  have "getchildren x \<noteq> [] \<or> attrib x \<noteq> []"
    using assms(3) by simp
  then show "parse_xmlelement n g ap pxe cv h a x = ok (Some v)"
    using assms(1) conjunct1 [OF *] phase conjunct1 [OF conjunct2 [OF *]]
      conjunct2 [OF conjunct2 [OF *]]
    by (rule parse_compound [where f = node_fields])
next
  assume left: "getchildren x \<noteq> [] \<or> before @ after \<noteq> []"
  have none: "attr_map_of attrs key = None"
    using assms(2) by (simp add: attr_map_of_None)
  have skip: "parse_attributes ap (attr_map_of attrs) (before @ (key, val) # after) [] =
      parse_attributes ap (attr_map_of attrs) (before @ after) []"
    using none by (rule parse_attributes_skip)
  from assms(3) left show "parse_xmlelement n g ap pxe cv h a x =
      parse_xmlelement n g ap pxe cv h a
        (XML (tag x) (before @ after) (getchildren x) (xml_text x))"
    by (auto simp: parse_xmlelement_def assms(1) skip)
qed

theorem undeclared_attribute_skipped_witness:
  "attributes 2 example_graph 1 = ok [\<lparr>attr_name = ''lang'', attr_type = 0\<rparr>] \<and>
   ''bogus'' \<notin> attr_name ` set [\<lparr>attr_name = ''lang'', attr_type = 0\<rparr>] \<and>
   attrib example_element = [(''lang'', ''en'')] @ (''bogus'', ''1'') # [] \<and>
   example_attr_parse \<lparr>attr_name = ''lang'', attr_type = 0\<rparr> ''en'' = Inr ''en'' \<and>
   elements_nested 2 value_name example_graph 1 =
     ok [(''_value_1'', Group [Element \<lparr>elem_name = ''id'', elem_type = 0\<rparr>])] \<and>
   example_parse_xmlelements (Group [Element \<lparr>elem_name = ''id'', elem_type = 0\<rparr>])
     (getchildren example_element) ''_value_1'' = Inr [(''id'', ''42'')] \<and>
   parse_attributes example_attr_parse (attr_map_of [\<lparr>attr_name = ''lang'', attr_type = 0\<rparr>])
     (attrib example_element) [] = Inr [(''lang'', ''en'')] \<and>
   parse_xmlelement 2 value_name example_attr_parse example_parse_xmlelements
     example_compound_value example_graph 1 example_element =
       ok (Some (1, [(''lang'', ''en''), (''id'', ''42'')])) \<and>
   parse_xmlelement 2 value_name example_attr_parse example_parse_xmlelements
     example_compound_value example_graph 1 example_element =
   parse_xmlelement 2 value_name example_attr_parse example_parse_xmlelements
     example_compound_value example_graph 1
     (XML ''item'' [(''lang'', ''en'')] [XML ''id'' [] [] (Some ''42'')] None) \<and>
   parse_xmlelement 2 value_name example_attr_parse example_parse_xmlelements
     example_compound_value example_graph 1 (XML ''item'' [(''bogus'', ''1'')] [] None) =
       ok (Some (1, []))"
proof -
  let ?attrs = "[\<lparr>attr_name = ''lang'', attr_type = 0\<rparr>]"
  let ?nested = "[(''_value_1'', Group [Element \<lparr>elem_name = ''id'', elem_type = 0\<rparr>])]"
  let ?lone = "XML ''item'' [(''bogus'', ''1'')] [] None"
  have attrs: "attributes 2 example_graph 1 = ok ?attrs"
    and nested: "elements_nested 2 value_name example_graph 1 = ok ?nested"
    by (simp_all add: example_defs eval_nat_numeral)
  have key: "''bogus'' \<notin> attr_name ` set ?attrs" by simp
  have x: "attrib example_element = [(''lang'', ''en'')] @ (''bogus'', ''1'') # []"
    and lone: "attrib ?lone = [] @ (''bogus'', ''1'') # []"
    by (simp_all add: example_element_def)
  have dec: "\<forall>(k, v) \<in> set (attrib y). \<forall>at.
      map_of (rev (map (\<lambda>at. (attr_name at, at)) ?attrs)) k = Some at \<longrightarrow>
        example_attr_parse at v = Inr v" for y
    by (simp add: example_attr_parse_def split_def)
  have declared: "[(''lang'', ''en'')] =
      filter (\<lambda>(k, v). k \<in> attr_name ` set ?attrs) (attrib example_element)"
    and declared_lone: "[] = filter (\<lambda>(k, v). k \<in> attr_name ` set ?attrs) (attrib ?lone)"
    by (simp_all add: example_element_def)
  have attr_fields: "[(''lang'', ''en'')] =
      fold (\<lambda>(k, v). AList.update k v) [(''lang'', ''en'')] []"
    and attr_fields_lone: "[] = fold (\<lambda>(k, v). AList.update k v) ([] :: (string \<times> string) list) []"
    by simp_all
  have content: "example_parse_xmlelements
      (Group [Element \<lparr>elem_name = ''id'', elem_type = 0\<rparr>])
      (getchildren example_element) ''_value_1'' = Inr [(''id'', ''42'')]"
    and content_lone: "example_parse_xmlelements
      (Group [Element \<lparr>elem_name = ''id'', elem_type = 0\<rparr>])
      (getchildren ?lone) ''_value_1'' = Inr []"
    by (simp_all add: example_parse_xmlelements_def example_element_def)
  note full = undeclared_attribute_skipped [where ap = example_attr_parse
      and dec = "\<lambda>k v. v" and x = example_element and g = value_name and nested = ?nested
      and pxe = example_parse_xmlelements and node_fields = "\<lambda>name nd. [(''id'', ''42'')]"
      and cv = example_compound_value and v = "(1, [(''lang'', ''en''), (''id'', ''42'')])",
      OF attrs key x dec declared attr_fields]
  note only = undeclared_attribute_skipped [where ap = example_attr_parse
      and dec = "\<lambda>k v. v" and x = ?lone and g = value_name and nested = ?nested
      and pxe = example_parse_xmlelements and node_fields = "\<lambda>name nd. []"
      and cv = example_compound_value and v = "(1, [])",
      OF attrs key lone dec declared_lone attr_fields_lone]
  have decoded: "example_attr_parse \<lparr>attr_name = ''lang'', attr_type = 0\<rparr> ''en'' = Inr ''en''"
    by (simp add: example_attr_parse_def)
  from full have phase: "parse_attributes example_attr_parse (attr_map_of ?attrs)
      (attrib example_element) [] = Inr [(''lang'', ''en'')]" by (rule conjunct1)
  from full nested content have parsed:
    "parse_xmlelement 2 value_name example_attr_parse example_parse_xmlelements
       example_compound_value example_graph 1 example_element =
         ok (Some (1, [(''lang'', ''en''), (''id'', ''42'')]))"
    by (simp add: example_compound_value_def)
  from full have same:
    "parse_xmlelement 2 value_name example_attr_parse example_parse_xmlelements
       example_compound_value example_graph 1 example_element =
     parse_xmlelement 2 value_name example_attr_parse example_parse_xmlelements
       example_compound_value example_graph 1
       (XML ''item'' [(''lang'', ''en'')] [XML ''id'' [] [] (Some ''42'')] None)"
    by (simp add: example_element_def)
  from only nested content_lone have parsed_lone:
    "parse_xmlelement 2 value_name example_attr_parse example_parse_xmlelements
       example_compound_value example_graph 1 ?lone = ok (Some (1, []))"
    by (simp add: example_compound_value_def)
  show ?thesis
    by (intro conjI; fact attrs key x decoded nested content phase parsed same parsed_lone)
qed

subsection \<open>Serialization\<close>




subsection \<open>Signature\<close>

text \<open>
  C5, as stated, at three ComplexTypes. \<open>Loop\<close> (address 4 of the example graph)
  extends itself: the signature reads the effective content nodes, which follow the
  extension reference without end, so no depth bound lets it return. \<open>Tokens\<close> extends a
  list type, which has no content nodes to read: the signature raises AttributeError. And
  \<open>Chain\<close> (address 4 of the records) has a sequence of the elements \<open>value\<close> and
  \<open>next\<close>, the type of \<open>next\<close> being \<open>Chain\<close> itself: the sequence is handed whole to
  its own signature, whatever that is, so with a signature that prints the names of the
  elements \<open>next\<close> is printed, not skipped.
\<close>

theorem signature_counterexample:
  "(\<forall>n. signature n value_name example_node_signature example_attribute_signature
          example_graph 4 = None) \<and>
   (\<forall>n. signature (Suc (Suc n)) value_name example_node_signature
          example_attribute_signature tokens_graph 2 = raise AttributeError) \<and>
   (\<forall>n node_signature attribute_signature.
      signature (Suc n) value_name node_signature attribute_signature records_graph 4 =
        (case node_signature (Group [Element \<lparr>elem_name = ''value'', elem_type = 0\<rparr>,
                                     Element \<lparr>elem_name = ''next'', elem_type = 4\<rparr>]) of
           Inl e \<Rightarrow> raise e
         | Inr s \<Rightarrow> ok s)) \<and>
   signature 1 value_name example_node_signature example_attribute_signature
     records_graph 4 = ok ''value, next''"
proof (intro conjI allI)
  fix n
  have "elements_nested n value_name example_graph 4 = None"
    using self_extension_diverges [of 4 example_graph loop_type n value_name]
    by (simp add: example_graph_def loop_type_def complex_init_def)
  then show "signature n value_name example_node_signature example_attribute_signature
      example_graph 4 = None"
    by (simp add: signature_def)
next
  fix n
  have "elements_nested (Suc (Suc n)) value_name tokens_graph 2 = raise AttributeError"
    by (simp add: tokens_graph_def tokens_type_def complex_init_def)
  then show "signature (Suc (Suc n)) value_name example_node_signature
      example_attribute_signature tokens_graph 2 = raise AttributeError"
    by (simp add: signature_def)
next
  fix n and node_signature :: "node \<Rightarrow> error + string"
    and attribute_signature :: "attribute \<Rightarrow> error + string"
  show "signature (Suc n) value_name node_signature attribute_signature records_graph 4 =
      (case node_signature (Group [Element \<lparr>elem_name = ''value'', elem_type = 0\<rparr>,
                                   Element \<lparr>elem_name = ''next'', elem_type = 4\<rparr>]) of
         Inl e \<Rightarrow> raise e
       | Inr s \<Rightarrow> ok s)"
    by (simp add: signature_def records_graph_def chain_type_def complex_init_def
        own_content_def self_reference_def ok_def raise_def bindR_def split: sum.splits)
next
  show "signature 1 value_name example_node_signature example_attribute_signature
      records_graph 4 = ok ''value, next''"
    by (simp add: signature_def records_graph_def chain_type_def complex_init_def
        own_content_def self_reference_def example_node_signature_def ok_def bindR_def)
qed

text \<open>
  C5, amended. For every ComplexType whose effective content nodes and effective
  attributes are computed, whatever the types of its elements refer to, and with
  signatures of the nodes and of the attributes that return, the signature returns: it is
  the signatures of the effective content nodes, in order, followed by the signatures of
  the effective attributes, in order, with a comma and a space before each but the first.
  Every content node that is itself a single element whose type is the type being signed
  is left out; every other node (a group with whatever it holds) and every attribute is
  kept. The two lists are computed along every finite extension chain that ends in a type
  without extension or with a SimpleType as its extension, so there the signature returns.
\<close>

theorem signature_skips_self_reference:
  assumes "\<forall>nd. node_signature nd = Inr (ns nd)"
    and "\<forall>attr. attribute_signature attr = Inr (asig attr)"
  shows
    "(elements_nested n g h a = ok nested \<and> attributes n h a = ok attrs \<longrightarrow>
        signature n g node_signature attribute_signature h a =
          ok (case map ns (filter (\<lambda>nd. case nd of Element e \<Rightarrow> elem_type e \<noteq> a
                                                | Group ms \<Rightarrow> True) (map snd nested)) @
                    map asig attrs of
                [] \<Rightarrow> []
              | p # ps \<Rightarrow> p @ concat (map (\<lambda>q. '', '' @ q) ps))) \<and>
     (ext_chain h (a # as) \<and> length as < n \<longrightarrow>
        signature (Suc n) g node_signature attribute_signature h a =
          ok (case map ns (filter (\<lambda>nd. case nd of Element e \<Rightarrow> elem_type e \<noteq> a
                                                | Group ms \<Rightarrow> True)
                             (map snd (concat (map (contributed_content g h) (rev (a # as)))))) @
                    map asig (concat (map (own_attributes h) (rev (a # as)))) of
                [] \<Rightarrow> []
              | p # ps \<Rightarrow> p @ concat (map (\<lambda>q. '', '' @ q) ps)))"
proof (intro conjI impI)
  assume "elements_nested n g h a = ok nested \<and> attributes n h a = ok attrs"
  then have "elements_nested n g h a = ok nested" and "attributes n h a = ok attrs"
    by simp_all
  then show "signature n g node_signature attribute_signature h a =
      ok (case map ns (filter (\<lambda>nd. case nd of Element e \<Rightarrow> elem_type e \<noteq> a
                                            | Group ms \<Rightarrow> True) (map snd nested)) @
                map asig attrs of
            [] \<Rightarrow> []
          | p # ps \<Rightarrow> p @ concat (map (\<lambda>q. '', '' @ q) ps))"
    using assms by (rule signature_computed)
next
  assume *: "ext_chain h (a # as) \<and> length as < n"
  then have len: "length (a # as) < Suc n" by simp
  have nested: "elements_nested (Suc n) g h a =
      ok (concat (map (contributed_content g h) (rev (a # as))))"
    using elements_nested_chain [OF conjunct1 [OF *] len, of g] by simp
  have attrs: "attributes (Suc n) h a = ok (concat (map (own_attributes h) (rev (a # as))))"
    using attributes_chain [OF conjunct1 [OF *] len] by simp
  from nested attrs assms
  show "signature (Suc n) g node_signature attribute_signature h a =
      ok (case map ns (filter (\<lambda>nd. case nd of Element e \<Rightarrow> elem_type e \<noteq> a
                                            | Group ms \<Rightarrow> True)
                         (map snd (concat (map (contributed_content g h) (rev (a # as)))))) @
                map asig (concat (map (own_attributes h) (rev (a # as)))) of
            [] \<Rightarrow> []
          | p # ps \<Rightarrow> p @ concat (map (\<lambda>q. '', '' @ q) ps))"
    by (rule signature_computed)
qed

theorem signature_skips_self_reference_witness:
  "(\<forall>nd. example_node_signature nd = Inr (node_label nd)) \<and>
   (\<forall>attr. example_attribute_signature attr = Inr (attr_name attr)) \<and>
   ext_chain example_graph [2, 1] \<and> length [1 :: nat] < 2 \<and>
   elements_nested 3 value_name example_graph 2 =
     ok [(''_value_1'', Group [Element \<lparr>elem_name = ''id'', elem_type = 0\<rparr>]),
         (''_value_2'', Element \<lparr>elem_name = ''next'', elem_type = 2\<rparr>)] \<and>
   attributes 3 example_graph 2 =
     ok [\<lparr>attr_name = ''lang'', attr_type = 0\<rparr>, \<lparr>attr_name = ''unit'', attr_type = 0\<rparr>] \<and>
   signature 3 value_name example_node_signature example_attribute_signature example_graph 2 =
     ok ''id, lang, unit''"
proof -
  have nodes: "\<forall>nd. example_node_signature nd = Inr (node_label nd)"
    and attrs: "\<forall>attr. example_attribute_signature attr = Inr (attr_name attr)"
    by (simp_all add: example_node_signature_def example_attribute_signature_def)
  have chain: "ext_chain example_graph [2, 1]"
    by (simp add: example_defs)
  have len: "length [1 :: nat] < 2" by simp
  have nested: "elements_nested 3 value_name example_graph 2 =
      ok [(''_value_1'', Group [Element \<lparr>elem_name = ''id'', elem_type = 0\<rparr>]),
          (''_value_2'', Element \<lparr>elem_name = ''next'', elem_type = 2\<rparr>)]"
    and attributes: "attributes 3 example_graph 2 =
      ok [\<lparr>attr_name = ''lang'', attr_type = 0\<rparr>, \<lparr>attr_name = ''unit'', attr_type = 0\<rparr>]"
    by (simp_all add: example_defs eval_nat_numeral)
  note sig = signature_skips_self_reference [OF nodes attrs, where g = value_name
      and h = example_graph and a = 2]
  have computed: "signature 3 value_name example_node_signature example_attribute_signature
      example_graph 2 = ok ''id, lang, unit''"
    using sig [where n = 3 and as = "[]"
        and nested = "[(''_value_1'', Group [Element \<lparr>elem_name = ''id'', elem_type = 0\<rparr>]),
                       (''_value_2'', Element \<lparr>elem_name = ''next'', elem_type = 2\<rparr>)]"
        and attrs = "[\<lparr>attr_name = ''lang'', attr_type = 0\<rparr>,
                      \<lparr>attr_name = ''unit'', attr_type = 0\<rparr>]"]
      nested attributes
    by simp
  have chained: "signature 3 value_name example_node_signature example_attribute_signature
      example_graph 2 = ok ''id, lang, unit''"
    using sig [where n = 2 and as = "[1]"] chain
    by (simp add: example_defs own_attributes_def contributed_content_def eval_nat_numeral)
  show ?thesis
    by (intro conjI; fact nodes attrs chain len nested attributes chained)
qed

subsection \<open>SimpleType construction\<close>

text \<open>
  C6. Calling a SimpleType with a total number of positional and keyword arguments other
  than one raises a TypeError (the arity-or-argument-name error) whose message starts
  with the name of the type's class; so does a call with one keyword argument that is not
  named "value". A call with one positional argument, or with the keyword argument
  "value", returns the scalar encoding of that value.
\<close>

theorem simple_call_arity:
  "(length args + length kwargs \<noteq> 1 \<longrightarrow>
      simple_call repr cname xmlvalue args kwargs =
        Inl (TypeError (arity_message cname (length args + length kwargs)))) \<and>
   (k \<noteq> ''value'' \<longrightarrow>
      simple_call repr cname xmlvalue [] [(k, v)] =
        Inl (TypeError (keyword_message repr cname k))) \<and>
   simple_call repr cname xmlvalue [v] [] = xmlvalue v \<and>
   simple_call repr cname xmlvalue [] [(''value'', v)] = xmlvalue v \<and>
   take (length cname) (arity_message cname n) = cname \<and>
   take (length cname) (keyword_message repr cname k) = cname"
  by (simp add: simple_call_def arity_message_def keyword_message_def)

theorem simple_call_arity_witness:
  "length [1, 2 :: int] + length ([] :: (string \<times> int) list) \<noteq> 1 \<and>
   simple_call id ''Integer'' integer_xmlvalue [1, 2] [] =
     Inl (TypeError (''Integer() takes exactly 1 argument (2 given). '' @
                     ''Simple types expect only a single value argument'')) \<and>
   ''val'' \<noteq> ''value'' \<and>
   simple_call id ''Integer'' integer_xmlvalue [] [(''val'', 7)] =
     Inl (TypeError (keyword_message id ''Integer'' ''val''))"
  using simple_call_arity [of "[1, 2 :: int]" "[]" id "''Integer''" integer_xmlvalue "''val''" 7]
  by (simp add: arity_message_def show_nat_digit digit_def)

subsection \<open>Effective views\<close>

text \<open>
  C7. For a ComplexType, the effective attributes are the effective attributes of its
  extension followed by its own attributes, and the effective content nodes are those of
  the extension (for a SimpleType extension, one synthetic element wrapping it) followed
  by its own content node. Along a finite extension chain both lists are the
  contributions of the types from the base-most one to the type itself, and a list that
  has been computed within one depth bound is the list computed within every larger one.
\<close>

theorem extension_contributions_first:
  assumes "a < length h" and "h ! a = ComplexType c"
  shows
    "(c_extension c = None \<longrightarrow>
        attributes (Suc n) h a = ok (c_attributes c) \<and>
        elements_nested (Suc n) g h a = ok (own_content g c)) \<and>
     (c_extension c = Some e \<and> attributes n h e = ok inherited \<longrightarrow>
        attributes (Suc n) h a = ok (inherited @ c_attributes c)) \<and>
     (c_extension c = Some e \<and> elements_nested n g h e = ok inherited_nodes \<longrightarrow>
        elements_nested (Suc n) g h a = ok (inherited_nodes @ own_content g c)) \<and>
     (c_extension c = Some e \<and> e < length h \<and> h ! e = SimpleType s \<longrightarrow>
        elements_nested (Suc n) g h a =
          ok ((g 1, Element \<lparr>elem_name = g 1, elem_type = e\<rparr>) # own_content g c)) \<and>
     (ext_chain h (a # as) \<and> length as < n \<longrightarrow>
        attributes (Suc n) h a = ok (concat (map (own_attributes h) (rev (a # as)))) \<and>
        elements_nested (Suc n) g h a =
          ok (concat (map (contributed_content g h) (rev (a # as))))) \<and>
     (attributes n h a = Some out \<and> n \<le> k \<longrightarrow> attributes k h a = Some out) \<and>
     (elements_nested n g h a = Some out_nodes \<and> n \<le> k \<longrightarrow>
        elements_nested k g h a = Some out_nodes)"
proof (intro conjI impI)
  assume "c_extension c = None"
  with assms show "attributes (Suc n) h a = ok (c_attributes c)"
    and "elements_nested (Suc n) g h a = ok (own_content g c)" by simp_all
next
  assume "c_extension c = Some e \<and> attributes n h e = ok inherited"
  with assms show "attributes (Suc n) h a = ok (inherited @ c_attributes c)" by simp
next
  assume *: "c_extension c = Some e \<and> elements_nested n g h e = ok inherited_nodes"
  then obtain m where n: "n = Suc m" by (cases n) auto
  from * have e: "e < length h" "\<exists>c'. h ! e = ComplexType c'"
    unfolding n by (auto split: if_splits xsd_type.splits)
  with * assms show "elements_nested (Suc n) g h a = ok (inherited_nodes @ own_content g c)"
    by auto
next
  assume "c_extension c = Some e \<and> e < length h \<and> h ! e = SimpleType s"
  with assms show "elements_nested (Suc n) g h a =
      ok ((g 1, Element \<lparr>elem_name = g 1, elem_type = e\<rparr>) # own_content g c)" by simp
next
  assume *: "ext_chain h (a # as) \<and> length as < n"
  then have len: "length (a # as) < Suc n" by simp
  from attributes_chain [OF conjunct1 [OF *] len]
  show "attributes (Suc n) h a = ok (concat (map (own_attributes h) (rev (a # as))))" by simp
  from elements_nested_chain [OF conjunct1 [OF *] len, of g]
  show "elements_nested (Suc n) g h a =
      ok (concat (map (contributed_content g h) (rev (a # as))))" by simp
next
  assume "attributes n h a = Some out \<and> n \<le> k"
  then show "attributes k h a = Some out" using attributes_mono by blast
next
  assume "elements_nested n g h a = Some out_nodes \<and> n \<le> k"
  then show "elements_nested k g h a = Some out_nodes" using elements_nested_mono by blast
qed

theorem extension_contributions_first_witness:
  "2 < length example_graph \<and> example_graph ! 2 = ComplexType derived_type \<and>
   c_extension derived_type = Some 1 \<and>
   attributes 2 example_graph 1 = ok [\<lparr>attr_name = ''lang'', attr_type = 0\<rparr>] \<and>
   attributes 3 example_graph 2 =
     ok [\<lparr>attr_name = ''lang'', attr_type = 0\<rparr>, \<lparr>attr_name = ''unit'', attr_type = 0\<rparr>] \<and>
   elements_nested 2 value_name example_graph 1 =
     ok [(''_value_1'', Group [Element \<lparr>elem_name = ''id'', elem_type = 0\<rparr>])] \<and>
   elements_nested 3 value_name example_graph 2 =
     ok [(''_value_1'', Group [Element \<lparr>elem_name = ''id'', elem_type = 0\<rparr>]),
         (''_value_2'', Element \<lparr>elem_name = ''next'', elem_type = 2\<rparr>)] \<and>
   ext_chain example_graph [2, 1] \<and>
   concat (map (own_attributes example_graph) (rev [2, 1])) =
     [\<lparr>attr_name = ''lang'', attr_type = 0\<rparr>, \<lparr>attr_name = ''unit'', attr_type = 0\<rparr>]"
  using extension_contributions_first [of 2 example_graph derived_type 2 value_name 1
      "[\<lparr>attr_name = ''lang'', attr_type = 0\<rparr>]"
      "[(''_value_1'', Group [Element \<lparr>elem_name = ''id'', elem_type = 0\<rparr>])]" string_type "[1]"]
  by (simp add: example_defs own_attributes_def contributed_content_def eval_nat_numeral)

subsection \<open>ListType rendering\<close>

text \<open>
  C8. Rendering a sequence through a ListType, when the item type encodes every item,
  returns the parent node with its tag, attributes and children as they were and with the
  text set to the encodings of the items by the item type, every item once and in the
  order of the items, with one space before each encoding but the first; the text of the
  empty sequence is empty. With an item type that writes integers in decimal, [1, 2, 3]
  gives "1 2 3".
\<close>

theorem list_render_joins_encodings:
  "(\<forall>v \<in> set vs. item_xmlvalue v = Inr (enc v)) \<Longrightarrow>
     list_render item_xmlvalue parent vs =
       Inr (XML (tag parent) (attrib parent) (getchildren parent)
              (Some (case map enc vs of
                       [] \<Rightarrow> []
                     | p # ps \<Rightarrow> p @ concat (map (\<lambda>q. '' '' @ q) ps))))"
  using mapM_all_Inr [of vs item_xmlvalue enc]
  by (cases vs) (simp_all add: list_render_def list_xmlvalue_def set_text_def join_concat comp_def)

theorem list_render_joins_encodings_witness:
  "integer_xmlvalue 1 = Inr ''1'' \<and> integer_xmlvalue 2 = Inr ''2'' \<and>
   integer_xmlvalue 3 = Inr ''3'' \<and>
   list_render integer_xmlvalue (XML ''list'' [] [] None) [1, 2, 3] =
     Inr (XML ''list'' [] [] (Some ''1 2 3''))"
  using list_render_joins_encodings
    [of "[1, 2, 3 :: int]" integer_xmlvalue "\<lambda>i. [digit (nat i)]" "XML ''list'' [] [] None"]
  by (simp add: integer_xmlvalue_def show_nat_digit digit_def)

subsection \<open>Abstract operations\<close>

text \<open>
  The union class is declared on \<^verbatim>\<open>object\<close> and defines \<^verbatim>\<open>resolve\<close> and
  \<^verbatim>\<open>signature\<close> only: its parsing, rendering and serialization do not exist.
\<close>

lemma union_marshalling_missing:
  "invoke UnionTypeC M_parse_xmlelement = Inl AttributeError \<and>
   invoke UnionTypeC M_render = Inl AttributeError \<and>
   invoke UnionTypeC M_serialize = Inl AttributeError"
  by (simp add: invoke_def lookup_method_def own_def)

text \<open>
  C9, as stated, at the union type's serialization: the invocation does not fail with
  NotImplementedError (the abstract-method error); no class declares a
  \<^verbatim>\<open>serialize\<close> stub.
\<close>

theorem union_serialize_counterexample:
  "invoke UnionTypeC M_serialize \<noteq> Inl NotImplementedError"
  by (simp add: invoke_def lookup_method_def own_def)

text \<open>
  C9, amended. For every class that derives from \<^verbatim>\<open>Type\<close> (and for
  \<^verbatim>\<open>Type\<close> itself), invoking accept, parse_xmlelement, parsexml, render or resolve
  where the class does not define it raises NotImplementedError; so parsing through an
  unresolved reference, which only defines resolve, raises it, and so do the scalar
  encoder and decoder of the plain SimpleType. Serialization has no stub: on every class
  that does not define it the call fails with AttributeError.
\<close>

theorem type_stub_raises_not_implemented:
  "(c \<noteq> UnionTypeC \<and> m \<in> set type_stubs \<and> (c = TypeC \<or> own c m = None) \<longrightarrow>
      invoke c m = Inl NotImplementedError) \<and>
   invoke UnresolvedTypeC M_parse_xmlelement = Inl NotImplementedError \<and>
   invoke SimpleTypeC M_xmlvalue = Inl NotImplementedError \<and>
   invoke SimpleTypeC M_pythonvalue = Inl NotImplementedError \<and>
   (own c M_serialize = None \<longrightarrow> invoke c M_serialize = Inl AttributeError)"
  by (cases c; cases m)
     (simp_all add: invoke_def lookup_method_def own_def type_stubs_def)

theorem type_stub_raises_not_implemented_witness:
  "ListTypeC \<noteq> UnionTypeC \<and> M_parse_xmlelement \<in> set type_stubs \<and>
   own ListTypeC M_parse_xmlelement = None \<and>
   invoke ListTypeC M_parse_xmlelement = Inl NotImplementedError \<and>
   own ListTypeC M_serialize = None \<and>
   invoke ListTypeC M_serialize = Inl AttributeError"
  using type_stub_raises_not_implemented [of ListTypeC M_parse_xmlelement]
  by (simp add: own_def type_stubs_def)

end
